theory Spec2Isabelle
  imports Complex_Main
begin

section \<open>Text helpers\<close>

text \<open>
  A Python string is a sequence of Unicode code points: it is modelled as the list of
  their numbers, as \<^verbatim>\<open>ord\<close> gives them. \<open>str s\<close> is the text of an ASCII literal \<open>s\<close>.
  Scores are Python floats; they are modelled as exact real numbers.
\<close>

type_synonym unicode = "int list"

definition str :: "string \<Rightarrow> unicode" where
  "str s = map of_char s"

definition newline :: int where
  "newline = 0x0A"

text \<open>
  \<^verbatim>\<open>str.isspace\<close> of one character, which is also what \<^verbatim>\<open>str.strip()\<close>,
  \<^verbatim>\<open>str.split()\<close> and the class \<^verbatim>\<open>\s\<close> of the module \<^verbatim>\<open>re\<close> take for whitespace:
  U+0009 to U+000D, U+001C to U+0020, U+0085, U+00A0, U+1680, U+2000 to U+200A, U+2028,
  U+2029, U+202F, U+205F and U+3000.
\<close>

definition is_space :: "int \<Rightarrow> bool" where
  "is_space n = ((0x09 \<le> n \<and> n \<le> 0x0D) \<or> (0x1C \<le> n \<and> n \<le> 0x20) \<or> n = 0x85 \<or> n = 0xA0 \<or>
     n = 0x1680 \<or> (0x2000 \<le> n \<and> n \<le> 0x200A) \<or> n = 0x2028 \<or> n = 0x2029 \<or> n = 0x202F \<or>
     n = 0x205F \<or> n = 0x3000)"

text \<open>
  The class \<^verbatim>\<open>\w\<close> and \<^verbatim>\<open>str.lower\<close>, on the letters and digits of ASCII. The evaluator
  alone uses them, for the value of a score.
\<close>

definition is_word :: "int \<Rightarrow> bool" where
  "is_word n =
     ((48 \<le> n \<and> n \<le> 57) \<or> (65 \<le> n \<and> n \<le> 90) \<or> n = 95 \<or> (97 \<le> n \<and> n \<le> 122))"

definition char_lower :: "int \<Rightarrow> int" where
  "char_lower n = (if 65 \<le> n \<and> n \<le> 90 then n + 32 else n)"

definition lower :: "unicode \<Rightarrow> unicode" where
  "lower s = map char_lower s"

definition strip :: "unicode \<Rightarrow> unicode" where
  "strip s = rev (dropWhile is_space (rev (dropWhile is_space s)))"

fun starts_with :: "unicode \<Rightarrow> unicode \<Rightarrow> bool" where
  "starts_with [] s = True"
| "starts_with (p # ps) [] = False"
| "starts_with (p # ps) (c # cs) = (p = c \<and> starts_with ps cs)"

text \<open>\<^verbatim>\<open>sub in s\<close>\<close>

fun contains :: "unicode \<Rightarrow> unicode \<Rightarrow> bool" where
  "contains sub [] = (sub = [])"
| "contains sub (c # cs) = (starts_with sub (c # cs) \<or> contains sub cs)"

text \<open>\<^verbatim>\<open>s.split()\<close>: the maximal runs of characters that are not whitespace.\<close>

fun split_acc :: "unicode \<Rightarrow> unicode \<Rightarrow> unicode list" where
  "split_acc w [] = (if w = [] then [] else [w])"
| "split_acc w (c # cs) =
     (if is_space c then (if w = [] then [] else [w]) @ split_acc [] cs
      else split_acc (w @ [c]) cs)"

definition split_ws :: "unicode \<Rightarrow> unicode list" where
  "split_ws s = split_acc [] s"

text \<open>\<^verbatim>\<open>s.split(sep)\<close> for a separator of one character: one piece more than separators.\<close>

fun split_on_acc :: "int \<Rightarrow> unicode \<Rightarrow> unicode \<Rightarrow> unicode list" where
  "split_on_acc sep w [] = [w]"
| "split_on_acc sep w (c # cs) =
     (if c = sep then w # split_on_acc sep [] cs else split_on_acc sep (w @ [c]) cs)"

definition split_on :: "int \<Rightarrow> unicode \<Rightarrow> unicode list" where
  "split_on sep s = split_on_acc sep [] s"

text \<open>\<^verbatim>\<open>sep.join(xs)\<close>\<close>

fun join :: "unicode \<Rightarrow> unicode list \<Rightarrow> unicode" where
  "join sep [] = []"
| "join sep [x] = x"
| "join sep (x # y # ys) = x @ sep @ join sep (y # ys)"

section \<open>Regular expressions, as far as the evaluator uses them\<close>

datatype rexp =
    Never
  | Eps
  | Atom "int \<Rightarrow> bool"
  | Alt rexp rexp
  | Seq rexp rexp
  | Star rexp

fun nullable :: "rexp \<Rightarrow> bool" where
  "nullable Never = False"
| "nullable Eps = True"
| "nullable (Atom P) = False"
| "nullable (Alt r s) = (nullable r \<or> nullable s)"
| "nullable (Seq r s) = (nullable r \<and> nullable s)"
| "nullable (Star r) = True"

fun alt :: "rexp \<Rightarrow> rexp \<Rightarrow> rexp" where
  "alt Never s = s"
| "alt r Never = r"
| "alt r s = Alt r s"

fun seq :: "rexp \<Rightarrow> rexp \<Rightarrow> rexp" where
  "seq Never s = Never"
| "seq Eps s = s"
| "seq r s = Seq r s"

fun deriv :: "int \<Rightarrow> rexp \<Rightarrow> rexp" where
  "deriv c Never = Never"
| "deriv c Eps = Never"
| "deriv c (Atom P) = (if P c then Eps else Never)"
| "deriv c (Alt r s) = alt (deriv c r) (deriv c s)"
| "deriv c (Seq r s) =
     (if nullable r then alt (seq (deriv c r) s) (deriv c s) else seq (deriv c r) s)"
| "deriv c (Star r) = seq (deriv c r) (Star r)"

text \<open>The whole of \<open>s\<close> matches \<open>r\<close>.\<close>

fun full_match :: "rexp \<Rightarrow> unicode \<Rightarrow> bool" where
  "full_match r [] = nullable r"
| "full_match r (c # cs) = full_match (deriv c r) cs"

text \<open>One ASCII character, and an ASCII literal.\<close>

definition chr :: "char \<Rightarrow> rexp" where
  "chr c = Atom (\<lambda>x. x = of_char c)"

definition lit :: "string \<Rightarrow> rexp" where
  "lit s = foldr (\<lambda>c r. Seq (chr c) r) s Eps"

definition plus :: "rexp \<Rightarrow> rexp" where
  "plus r = Seq r (Star r)"

text \<open>\<^verbatim>\<open>.\<close> under \<^verbatim>\<open>re.DOTALL\<close>, and without the flag.\<close>

definition dot_all :: rexp where
  "dot_all = Atom (\<lambda>x. True)"

definition dot :: rexp where
  "dot = Atom (\<lambda>x. x \<noteq> newline)"

text \<open>
  \<^verbatim>\<open>re.search(r, s)\<close> is not \<^verbatim>\<open>None\<close>: some substring of \<open>s\<close> matches. A lazy
  quantifier \<^verbatim>\<open>*?\<close> matches the same strings as \<^verbatim>\<open>*\<close>, so it is written \<^const>\<open>Star\<close>.
\<close>

definition re_search :: "rexp \<Rightarrow> unicode \<Rightarrow> bool" where
  "re_search r s = full_match (Seq (Star dot_all) (Seq r (Star dot_all))) s"

text \<open>
  Under \<^verbatim>\<open>re.MULTILINE\<close> the anchor \<^verbatim>\<open>^\<close> matches at the start of the string and
  right after every newline: \<open>line_starts s\<close> are the suffixes of \<open>s\<close> at these places.
\<close>

fun after_newlines :: "unicode \<Rightarrow> unicode list" where
  "after_newlines [] = []"
| "after_newlines (c # cs) = (if c = newline then [cs] else []) @ after_newlines cs"

definition line_starts :: "unicode \<Rightarrow> unicode list" where
  "line_starts s = s # after_newlines s"

text \<open>\<^verbatim>\<open>re.search("^" + r, s, re.MULTILINE)\<close> is not \<^verbatim>\<open>None\<close>.\<close>

definition re_search_bol :: "rexp \<Rightarrow> unicode \<Rightarrow> bool" where
  "re_search_bol r s = list_ex (full_match (Seq r (Star dot_all))) (line_starts s)"

section \<open>The evaluator\<close>

text \<open>
  A result of the evaluator: the dictionary of the scores by dimension, with the entry
  \<^verbatim>\<open>"total"\<close> as a field of its own.
\<close>

record score_result =
  dims :: "(string \<times> real) list"
  total :: real

text \<open>\<^verbatim>\<open>Evaluator.code_patterns\<close>, in the order of the dictionary.\<close>

definition code_patterns :: "(string \<times> rexp) list" where
  "code_patterns =
    [(''has_comments'',
        Alt (Seq (chr CHR ''#'') (Star dot_all))
         (Alt (Seq (lit ''//'') (Star dot_all))
              (Seq (lit ''/*'') (Seq (Star dot_all) (lit ''*/''))))),
     (''has_docstrings'',
        Alt (Seq (lit [CHR 0x22, CHR 0x22, CHR 0x22])
               (Seq (Star dot_all) (lit [CHR 0x22, CHR 0x22, CHR 0x22])))
            (Seq (lit [CHR 0x27, CHR 0x27, CHR 0x27])
               (Seq (Star dot_all) (lit [CHR 0x27, CHR 0x27, CHR 0x27])))),
     (''has_error_handling'',
        Alt (lit ''try:'')
         (Alt (lit ''except:'')
              (Seq (lit ''catch'') (Seq (Star (Atom is_space)) (chr CHR ''(''))))),
     (''has_type_hints'',
        Seq (lit ''def'')
         (Seq (plus (Atom is_space))
          (Seq (plus (Atom is_word))
           (Seq (Star (Atom is_space))
            (Seq (chr CHR ''('')
             (Seq (Star (Atom (\<lambda>x. x \<noteq> of_char CHR '')'')))
              (Seq (chr CHR '':'')
               (Seq (Star (Atom is_space)) (plus (Atom is_word))))))))))]"

text \<open>The pattern \<^verbatim>\<open>^import\s+|^from\s+\<close>, without its anchors.\<close>

definition import_pattern :: rexp where
  "import_pattern =
     Alt (Seq (lit ''import'') (plus (Atom is_space)))
         (Seq (lit ''from'') (plus (Atom is_space)))"

text \<open>The loop over \<^verbatim>\<open>code_patterns.items()\<close>: a tenth for every pattern found.\<close>

definition best_practices :: "unicode \<Rightarrow> real \<Rightarrow> real" where
  "best_practices code q =
     foldl (\<lambda>q (pattern_name, pattern). if re_search pattern code then q + 0.1 else q)
       q code_patterns"

definition evaluate_code :: "unicode \<Rightarrow> unicode \<Rightarrow> unicode list option \<Rightarrow> score_result" where
  "evaluate_code code task rag_chunks =
     (let correctness = 0.5;
          quality = 0.5;
          completeness = 0.5;
          completeness =
            (if contains (str ''def '') code \<or> contains (str ''function '') code \<or> contains (str ''class '') code
             then completeness + 0.2 else completeness);
          quality = best_practices code quality;
          quality = (if re_search_bol import_pattern code then quality + 0.1 else quality);
          correctness = min 1.0 correctness;
          quality = min 1.0 quality;
          completeness = min 1.0 completeness
      in \<lparr>dims = [(''correctness'', correctness), (''quality'', quality),
                  (''completeness'', completeness)],
          total = correctness * 0.4 + quality * 0.3 + completeness * 0.3\<rparr>)"

text \<open>\<^verbatim>\<open>\[.*?\]|\(.*?\)|source|document|according\<close>\<close>

definition citation_pattern :: rexp where
  "citation_pattern =
     Alt (Seq (chr CHR ''['') (Seq (Star dot) (chr CHR '']'')))
      (Alt (Seq (chr CHR ''('') (Seq (Star dot) (chr CHR '')'')))
       (Alt (lit ''source'') (Alt (lit ''document'') (lit ''according''))))"

text \<open>\<^verbatim>\<open>\*\*.*?\*\*|#+\s+\<close>\<close>

definition markdown_pattern :: rexp where
  "markdown_pattern =
     Alt (Seq (lit ''**'') (Seq (Star dot) (lit ''**'')))
         (Seq (plus (chr CHR ''#'')) (plus (Atom is_space)))"

definition evaluate_rag_answer :: "unicode \<Rightarrow> unicode list option \<Rightarrow> score_result" where
  "evaluate_rag_answer answer rag_chunks =
     (case rag_chunks of
        None \<Rightarrow>
          \<lparr>dims = [(''grounding'', 0.5), (''clarity'', 0.5), (''completeness'', 0.5)],
           total = 0.5\<rparr>
      | Some chunks \<Rightarrow>
          if chunks = [] then
            \<lparr>dims = [(''grounding'', 0.5), (''clarity'', 0.5), (''completeness'', 0.5)],
             total = 0.5\<rparr>
          else
            (let grounding = 0.5;
                 clarity = 0.5;
                 completeness = 0.5;
                 answer_lower = lower answer;
                 chunk_text = lower (join (str '' '') chunks);
                 answer_words = set (split_ws answer_lower);
                 chunk_words = set (split_ws chunk_text);
                 overlap = card (answer_words \<inter> chunk_words);
                 total_unique = card (answer_words \<union> chunk_words);
                 grounding =
                   (if total_unique > 0
                    then min 1.0 (real overlap / real total_unique * 2) else grounding);
                 grounding =
                   (if re_search citation_pattern answer_lower then grounding + 0.2
                    else grounding);
                 clarity =
                   (if length (split_on newline answer) > 3 then clarity + 0.2 else clarity);
                 clarity = (if re_search markdown_pattern answer then clarity + 0.1 else clarity);
                 grounding = min 1.0 grounding;
                 clarity = min 1.0 clarity;
                 completeness = min 1.0 completeness
             in \<lparr>dims = [(''grounding'', grounding), (''clarity'', clarity),
                         (''completeness'', completeness)],
                 total = grounding * 0.5 + clarity * 0.3 + completeness * 0.2\<rparr>))"

definition evaluate :: "unicode \<Rightarrow> unicode \<Rightarrow> bool \<Rightarrow> unicode list option \<Rightarrow> score_result" where
  "evaluate solution task is_code rag_chunks =
     (if is_code then evaluate_code solution task rag_chunks
      else evaluate_rag_answer solution rag_chunks)"

section \<open>Adapters: the replies of the collaborators\<close>

text \<open>
  Python exceptions of class \<^verbatim>\<open>Exception\<close>, with their message. An \<^verbatim>\<open>IndexError\<close> is the
  exception with the message of \<open>index_error\<close>.
\<close>

datatype exn = Exception unicode

definition index_error :: exn where
  "index_error = Exception (str ''list index out of range'')"

text \<open>
  What the model backend answers to one chat call: the content of the message, or a
  transport failure with its message.
\<close>

datatype reply = Failure unicode | Content unicode

text \<open>
  The replies of the backend in one round. The Generator's reply is a sequence of chunks,
  each with a content, possibly cut short by a transport failure; a call without streaming
  receives the concatenation of the chunks. The prompts are not modelled: the replies are
  given by round.
\<close>

record round_replies =
  generator_chunks :: "unicode list"
  generator_failure :: "unicode option"
  critic_reply :: reply
  improver_reply :: reply

definition generator_reply :: "round_replies \<Rightarrow> reply" where
  "generator_reply r =
     (case generator_failure r of
        Some m \<Rightarrow> Failure m
      | None \<Rightarrow> Content (concat (generator_chunks r)))"

text \<open>\<^verbatim>\<open>BaseAgent._call_ollama\<close>\<close>

fun call_ollama :: "reply \<Rightarrow> exn + unicode" where
  "call_ollama (Failure m) = Inl (Exception (str ''Error calling Ollama API: '' @ m))"
| "call_ollama (Content c) = Inr (strip c)"

text \<open>
  \<^verbatim>\<open>BaseAgent._call_ollama_stream\<close>: the tokens it yields (the contents that are not
  empty), and the exception that ends the stream, if any.
\<close>

definition call_ollama_stream :: "round_replies \<Rightarrow> unicode list \<times> exn option" where
  "call_ollama_stream r =
     (filter (\<lambda>content. content \<noteq> []) (generator_chunks r),
      map_option (\<lambda>m. Exception (str ''Error calling Ollama API: '' @ m)) (generator_failure r))"

record past_example =
  example_task :: unicode
  example_solution :: unicode
  example_score :: real
  similarity :: real

text \<open>
  The environment of one session: what \<^verbatim>\<open>rag.retrieve\<close> returns (it never raises), what
  \<^verbatim>\<open>smriti.retrieve_similar\<close> returns or raises, the replies of the backend by round
  (counted from 0), and the exception of \<^verbatim>\<open>smriti.store\<close>, if the database fails.
\<close>

record env =
  rag_retrieve :: "unicode list"
  retrieve_similar :: "exn + past_example list"
  replies :: "nat \<Rightarrow> round_replies"
  store_failure :: "exn option"

section \<open>Requests, rounds and results\<close>

record task_request =
  task :: unicode
  request_context :: "unicode option"
  use_rag :: bool
  is_code :: bool

record orchestrator =
  max_iterations :: nat
  min_improvement :: real
  fast_mode :: bool

text \<open>
  The dictionary \<^verbatim>\<open>iteration_data\<close>. The keys that only the streaming path sets are
  optional fields.
\<close>

record iteration_data =
  iteration :: nat
  yantra_output :: unicode
  sutra_critique :: unicode
  agni_output :: unicode
  score :: real
  improvement :: real
  score_details :: score_result
  yantra_score :: "real option"
  yantra_score_details :: "score_result option"
  agni_score :: "real option"
  iteration_improvement :: "real option"

text \<open>The local variables of the loop.\<close>

record loop_state =
  iterations :: "iteration_data list"
  best_score :: real
  best_solution :: "unicode option"

definition initial_state :: loop_state where
  "initial_state = \<lparr>iterations = [], best_score = 0.0, best_solution = None\<rparr>"

text \<open>\<^verbatim>\<open>if score > best_score: best_score = score; best_solution = current_solution\<close>\<close>

definition update_best :: "loop_state \<Rightarrow> real \<Rightarrow> unicode \<Rightarrow> loop_state" where
  "update_best st sc current_solution =
     (if sc > best_score st
      then st\<lparr>best_score := sc, best_solution := Some current_solution\<rparr>
      else st)"

datatype json_value = JBool bool | JInt int | JStr string

text \<open>The arguments of one call of \<^verbatim>\<open>smriti.store\<close> by a session.\<close>

record store_call =
  store_task :: unicode
  store_solution :: "unicode option"
  store_quality_score :: real
  store_metadata :: "(string \<times> json_value) list"

record session_result =
  result_task :: unicode
  final_solution :: "unicode option"
  final_score :: real
  result_iterations :: "iteration_data list"
  total_iterations :: nat
  used_rag :: bool
  rag_chunks :: "unicode list option"

definition store_best :: "task_request \<Rightarrow> loop_state \<Rightarrow> store_call" where
  "store_best rq st =
     \<lparr>store_task = task rq,
      store_solution = best_solution st,
      store_quality_score = best_score st,
      store_metadata =
        [(''is_code'', JBool (is_code rq)), (''used_rag'', JBool (use_rag rq)),
         (''iterations'', JInt (int (length (iterations st))))]\<rparr>"

section \<open>Aggregate mode: \<^verbatim>\<open>Orchestrator.process\<close>\<close>

text \<open>One pass of the body of the loop, up to the entry that is appended.\<close>

definition process_round ::
  "env \<Rightarrow> task_request \<Rightarrow> unicode list option \<Rightarrow> nat \<Rightarrow> iteration_data list
     \<Rightarrow> exn + iteration_data" where
  "process_round e rq chunks i its =
     (case call_ollama (generator_reply (replies e i)) of
        Inl x \<Rightarrow> Inl x
      | Inr yantra_out \<Rightarrow>
     (case call_ollama (critic_reply (replies e i)) of
        Inl x \<Rightarrow> Inl x
      | Inr critique \<Rightarrow>
     (case call_ollama (improver_reply (replies e i)) of
        Inl x \<Rightarrow> Inl x
      | Inr improved_output \<Rightarrow>
          (let score_result = evaluate improved_output (task rq) (is_code rq) chunks;
               d = \<lparr>iteration = i + 1,
                    yantra_output = yantra_out,
                    sutra_critique = critique,
                    agni_output = improved_output,
                    score = total score_result,
                    improvement = 0.0,
                    score_details = score_result,
                    yantra_score = None,
                    yantra_score_details = None,
                    agni_score = None,
                    iteration_improvement = None\<rparr>
           in if i > 0 then
                (if its = [] then Inl index_error
                 else Inr (d\<lparr>improvement := score d - score (last its)\<rparr>))
              else Inr d))))"

fun process_loop ::
  "orchestrator \<Rightarrow> env \<Rightarrow> task_request \<Rightarrow> unicode list option \<Rightarrow> nat list \<Rightarrow> loop_state
     \<Rightarrow> exn + loop_state" where
  "process_loop orc e rq chunks [] st = Inr st"
| "process_loop orc e rq chunks (i # rest) st =
     (case process_round e rq chunks i (iterations st) of
        Inl x \<Rightarrow> Inl x
      | Inr d \<Rightarrow>
          (let its = iterations st @ [d];
               st' = update_best (st\<lparr>iterations := its\<rparr>) (score d) (agni_output d)
           in if i > 0 then
                (if length its < 2 then Inl index_error
                 else if score d - score (its ! (length its - 2)) < min_improvement orc
                 then Inr st'
                 else process_loop orc e rq chunks rest st')
              else process_loop orc e rq chunks rest st'))"

definition session_result_of :: "task_request \<Rightarrow> unicode list option \<Rightarrow> loop_state \<Rightarrow> session_result" where
  "session_result_of rq chunks st =
     \<lparr>result_task = task rq,
      final_solution = best_solution st,
      final_score = best_score st,
      result_iterations = iterations st,
      total_iterations = length (iterations st),
      used_rag = use_rag rq,
      rag_chunks = (if use_rag rq then chunks else None)\<rparr>"

text \<open>
  \<^verbatim>\<open>Orchestrator.process\<close>: the calls of \<^verbatim>\<open>smriti.store\<close> it makes, and the result it
  returns or the exception it raises.
\<close>

definition process ::
  "orchestrator \<Rightarrow> env \<Rightarrow> task_request \<Rightarrow> store_call list \<times> (exn + session_result)" where
  "process orc e rq =
     (let chunks = (if use_rag rq then Some (rag_retrieve e) else None)
      in case retrieve_similar e of
           Inl x \<Rightarrow> ([], Inl x)
         | Inr similar_tasks \<Rightarrow>
        (case process_loop orc e rq chunks [0..<max_iterations orc] initial_state of
           Inl x \<Rightarrow> ([], Inl x)
         | Inr st \<Rightarrow>
             if best_score st > 0.6 then
               (case store_failure e of
                  Some x \<Rightarrow> ([store_best rq st], Inl x)
                | None \<Rightarrow> ([store_best rq st], Inr (session_result_of rq chunks st)))
             else ([], Inr (session_result_of rq chunks st))))"

section \<open>The background dispatcher: \<^verbatim>\<open>run_background_task\<close>\<close>

text \<open>
  What an operation does when it is run with the arguments it was submitted with: it
  returns, or it raises an \<^verbatim>\<open>Exception\<close> with a message.
\<close>

datatype outcome = Returns | Raises unicode

text \<open>
  A submitted operation: its attribute \<^verbatim>\<open>__name__\<close> if it has one, \<^verbatim>\<open>str(func)\<close>,
  whether it is a coroutine function, and its outcome.
\<close>

record operation =
  dunder_name :: "unicode option"
  func_str :: unicode
  is_coroutine_function :: bool
  run :: outcome

text \<open>
  The event loop of \<^verbatim>\<open>asyncio\<close>, as far as the dispatcher uses it: the tasks made by
  \<^verbatim>\<open>asyncio.create_task\<close> that have not started yet, in the order of their creation, and
  the lines printed so far. A task made by the dispatcher is \<^verbatim>\<open>safe_wrapper\<close> closed over
  its operation.
\<close>

record event_loop =
  pending :: "operation list"
  printed :: "unicode list"

text \<open>The warning sign that starts the line of the log: U+26A0 and U+FE0F.\<close>

definition warning_sign :: unicode where
  "warning_sign = [0x26A0, 0xFE0F]"

text \<open>
  \<^verbatim>\<open>safe_wrapper\<close>: the lines it prints, and how the coroutine ends. A coroutine function
  is awaited and any other function is awaited through \<^verbatim>\<open>asyncio.to_thread\<close>; the
  exception of the operation reaches the \<^verbatim>\<open>except\<close> clause either way.
\<close>

definition safe_wrapper :: "operation \<Rightarrow> unicode list \<times> (exn + unit)" where
  "safe_wrapper func =
     (case (if is_coroutine_function func then run func else run func) of
        Returns \<Rightarrow> ([], Inr ())
      | Raises error_msg \<Rightarrow>
          (let func_name = (case dunder_name func of Some n \<Rightarrow> n | None \<Rightarrow> func_str func)
           in ([warning_sign @ str '' Background task error ('' @ func_name @ str ''): '' @ error_msg],
               Inr ())))"

text \<open>\<^verbatim>\<open>run_background_task\<close>: the task is created, nothing of it is run.\<close>

definition run_background_task :: "operation \<Rightarrow> event_loop \<Rightarrow> event_loop" where
  "run_background_task func loop = loop\<lparr>pending := pending loop @ [func]\<rparr>"

text \<open>
  The event loop runs the oldest pending task to its end. An exception that leaves a task
  stays in the task; it is recorded here as a line of its own.
\<close>

definition run_next :: "event_loop \<Rightarrow> event_loop" where
  "run_next loop =
     (case pending loop of
        [] \<Rightarrow> loop
      | func # rest \<Rightarrow>
          (case safe_wrapper func of
             (out, Inr u) \<Rightarrow> loop\<lparr>pending := rest, printed := printed loop @ out\<rparr>
           | (out, Inl (Exception m)) \<Rightarrow>
               loop\<lparr>pending := rest,
                    printed := printed loop @ out @ [str ''Task exception was never retrieved: '' @ m]\<rparr>))"

text \<open>
  The endpoint \<^verbatim>\<open>/process\<close>: the response, the calls of \<^verbatim>\<open>smriti.store\<close>, and the event
  loop at the return. \<open>record_task\<close> is \<^verbatim>\<open>analytics.record_task\<close> with its arguments.
\<close>

datatype http_response = Ok session_result | Http500 unicode

definition process_task ::
  "orchestrator \<Rightarrow> env \<Rightarrow> operation \<Rightarrow> event_loop \<Rightarrow> task_request
     \<Rightarrow> http_response \<times> store_call list \<times> event_loop" where
  "process_task orc e record_task loop rq =
     (case process orc e rq of
        (stores, Inl (Exception m)) \<Rightarrow> (Http500 m, stores, loop)
      | (stores, Inr result) \<Rightarrow> (Ok result, stores, run_background_task record_task loop))"

section \<open>Live mode: \<^verbatim>\<open>generate_process_events\<close>\<close>

text \<open>
  The events of the stream, by their \<^verbatim>\<open>type\<close>, with their payload in the order of the
  source. The message of \<open>PlateauReached\<close> is a text formatted from two numbers, the
  improvement and the threshold: the event carries the two numbers.
\<close>

datatype event =
    Start unicode
  | RagRetrieved nat
  | MemoryFound nat
  | IterationStart nat
  | FirstResponseStarted
  | Token unicode nat nat
  | FirstResponseComplete nat
  | SutraStarted nat
  | ImprovingStarted nat
  | ImprovedToken unicode nat nat
  | Improved nat unicode unicode nat
  | IterationComplete nat iteration_data
  | PlateauReached real real
  | End unicode "unicode option" real "iteration_data list" nat bool
  | Error unicode unicode

text \<open>\<^verbatim>\<open>iterations[-1].get("agni_score", iterations[-1].get("score", 0.0))\<close>\<close>

definition get_agni_score :: "iteration_data \<Rightarrow> real" where
  "get_agni_score d = (case agni_score d of Some a \<Rightarrow> a | None \<Rightarrow> score d)"

definition token_events :: "nat \<Rightarrow> unicode list \<Rightarrow> event list" where
  "token_events i tokens =
     map (\<lambda>(token_count, token). Token token token_count (i + 1))
       (zip [1..<Suc (length tokens)] tokens)"

text \<open>
  The call of the Improver in the streaming path, with its fallbacks and the final
  \<^verbatim>\<open>strip\<close>: an empty reply and a failed call are replaced by fixed texts.
\<close>

definition improve :: "reply \<Rightarrow> unicode" where
  "improve r =
     (let agni_out =
            (case call_ollama r of
               Inr out \<Rightarrow> if out = [] then str ''Unable to generate improved output'' else out
             | Inl x \<Rightarrow> str ''Error generating improved output. Please try again.'')
      in strip agni_out)"

text \<open>The two events that carry the improved text.\<close>

definition improved_events :: "nat \<Rightarrow> unicode \<Rightarrow> event list" where
  "improved_events i agni_out =
     (let improved_token_count = (if agni_out \<noteq> [] then length (split_ws agni_out) else 0)
      in [ImprovedToken agni_out (i + 1) improved_token_count,
          Improved (i + 1) agni_out agni_out improved_token_count])"

text \<open>
  The entry of the round before \<^verbatim>\<open>iteration_improvement\<close> is compared with the previous
  round: both texts are scored, the local variable \<^verbatim>\<open>agni_score\<close> is the field
  \<^const>\<open>score\<close> of the entry.
\<close>

definition live_entry ::
  "task_request \<Rightarrow> unicode list option \<Rightarrow> nat \<Rightarrow> unicode \<Rightarrow> unicode \<Rightarrow> unicode \<Rightarrow> iteration_data" where
  "live_entry rq chunks i yantra_out critique agni_out =
     (let yantra_score_result = evaluate yantra_out (task rq) (is_code rq) chunks;
          agni_score_result = evaluate agni_out (task rq) (is_code rq) chunks;
          agni_vs_yantra = total agni_score_result - total yantra_score_result
      in \<lparr>iteration = i + 1,
          yantra_output = yantra_out,
          sutra_critique = critique,
          agni_output = agni_out,
          score = total agni_score_result,
          improvement = agni_vs_yantra,
          score_details = agni_score_result,
          yantra_score = Some (total yantra_score_result),
          yantra_score_details = Some yantra_score_result,
          agni_score = Some (total agni_score_result),
          iteration_improvement = Some agni_vs_yantra\<rparr>)"

text \<open>
  One pass of the body of the loop, up to the event \<^verbatim>\<open>iteration_complete\<close>: the events it
  yields, and the entry that is appended or the exception that leaves the loop.
\<close>

definition live_round ::
  "env \<Rightarrow> task_request \<Rightarrow> unicode list option \<Rightarrow> nat \<Rightarrow> iteration_data list
     \<Rightarrow> event list \<times> (exn + iteration_data)" where
  "live_round e rq chunks i its =
     (let r = replies e i;
          tokens = fst (call_ollama_stream r);
          streamed = [IterationStart (i + 1), FirstResponseStarted] @ token_events i tokens
      in case snd (call_ollama_stream r) of
           Some x \<Rightarrow> (streamed, Inl x)
         | None \<Rightarrow>
        (let current_solution = strip (concat tokens);
             critiquing = streamed @ [FirstResponseComplete (i + 1), SutraStarted (i + 1)]
         in case call_ollama (critic_reply r) of
              Inl x \<Rightarrow> (critiquing, Inl x)
            | Inr critique \<Rightarrow>
           (let agni_out = improve (improver_reply r);
                improved = critiquing @ [ImprovingStarted (i + 1)] @ improved_events i agni_out;
                d = live_entry rq chunks i current_solution critique agni_out
            in if i > 0 then
                 (if its = [] then (improved, Inl index_error)
                  else
                    (let d = d\<lparr>iteration_improvement :=
                                 Some (score d - get_agni_score (last its))\<rparr>
                     in (improved @ [IterationComplete (i + 1) d], Inr d)))
               else (improved @ [IterationComplete (i + 1) d], Inr d))))"

definition emit_before :: "event list \<Rightarrow> event list \<times> 'a \<Rightarrow> event list \<times> 'a" where
  "emit_before evs p = (evs @ fst p, snd p)"

text \<open>
  The loop \<^verbatim>\<open>for iteration in range(orchestrator.max_iterations)\<close> over the indices that
  are left. The check of the plateau reads \<^verbatim>\<open>iterations[-1]\<close> after the entry of this
  round has been appended.
\<close>

fun live_loop ::
  "orchestrator \<Rightarrow> env \<Rightarrow> task_request \<Rightarrow> unicode list option \<Rightarrow> nat list \<Rightarrow> loop_state
     \<Rightarrow> event list \<times> (exn + loop_state)" where
  "live_loop orc e rq chunks [] st = ([], Inr st)"
| "live_loop orc e rq chunks (i # rest) st =
     (case live_round e rq chunks i (iterations st) of
        (evs, Inl x) \<Rightarrow> (evs, Inl x)
      | (evs, Inr d) \<Rightarrow>
          (let its = iterations st @ [d];
               st' = update_best (st\<lparr>iterations := its\<rparr>) (score d) (agni_output d)
           in if i > 0 then
                (let prev_agni_score = get_agni_score (last its);
                     improvement = score d - prev_agni_score
                 in if improvement < min_improvement orc
                    then (evs @ [PlateauReached improvement (min_improvement orc)], Inr st')
                    else emit_before evs (live_loop orc e rq chunks rest st'))
              else emit_before evs (live_loop orc e rq chunks rest st')))"

text \<open>
  The events before the first round: \<^verbatim>\<open>start\<close>, \<^verbatim>\<open>rag_retrieved\<close> when retrieval is
  asked for, and \<^verbatim>\<open>memory_found\<close> when the memory returned examples.
\<close>

definition opening_events :: "env \<Rightarrow> task_request \<Rightarrow> past_example list \<Rightarrow> event list" where
  "opening_events e rq similar_tasks =
     [Start (str ''Starting task processing...'')] @
     (if use_rag rq then [RagRetrieved (length (rag_retrieve e))] else []) @
     (if similar_tasks \<noteq> [] then [MemoryFound (length similar_tasks)] else [])"

text \<open>
  \<^verbatim>\<open>generate_process_events\<close>, read to its end by the consumer: the events it yields, the
  calls of \<^verbatim>\<open>smriti.store\<close> it makes, and the event loop when it is exhausted. The
  handler \<^verbatim>\<open>except Exception as e\<close> yields the event \<^verbatim>\<open>error\<close> with \<^verbatim>\<open>str(e)\<close>, an
  exception object being true. When \<^verbatim>\<open>retrieve_similar\<close> raises, no example has been
  found yet.
\<close>

definition generate_process_events ::
  "orchestrator \<Rightarrow> env \<Rightarrow> operation \<Rightarrow> event_loop \<Rightarrow> task_request
     \<Rightarrow> event list \<times> store_call list \<times> event_loop" where
  "generate_process_events orc e record_task loop rq =
     (let chunks = (if use_rag rq then Some (rag_retrieve e) else None)
      in case retrieve_similar e of
           Inl (Exception m) \<Rightarrow> (opening_events e rq [] @ [Error m m], [], loop)
         | Inr similar_tasks \<Rightarrow>
        (let found = opening_events e rq similar_tasks
         in case live_loop orc e rq chunks [0..<max_iterations orc] initial_state of
              (evs, Inl (Exception m)) \<Rightarrow> (found @ evs @ [Error m m], [], loop)
            | (evs, Inr st) \<Rightarrow>
               (let ended =
                      [End (task rq) (best_solution st) (best_score st) (iterations st)
                         (length (iterations st)) (use_rag rq)]
                in if best_score st > 0.6 then
                     (case store_failure e of
                        Some (Exception m) \<Rightarrow>
                          (found @ evs @ [Error m m], [store_best rq st], loop)
                      | None \<Rightarrow>
                          (found @ evs @ ended, [store_best rq st],
                           run_background_task record_task loop))
                   else (found @ evs @ ended, [], run_background_task record_task loop))))"

text \<open>
  \<^verbatim>\<open>process_task_stream\<close>: \<^verbatim>\<open>event_generator\<close> yields every event of
  \<^verbatim>\<open>generate_process_events\<close>, and an event \<^verbatim>\<open>error\<close> for an exception that leaves it;
  none does, so the stream is the one of \<^verbatim>\<open>generate_process_events\<close>.
\<close>

definition process_task_stream ::
  "orchestrator \<Rightarrow> env \<Rightarrow> operation \<Rightarrow> event_loop \<Rightarrow> task_request \<Rightarrow> event list" where
  "process_task_stream orc e record_task loop rq =
     fst (generate_process_events orc e record_task loop rq)"

section \<open>The memory: \<^verbatim>\<open>Smriti.store\<close>\<close>

text \<open>
  A row of the table \<^verbatim>\<open>memories\<close>, without the column \<^verbatim>\<open>created_at\<close>. The columns
  \<^verbatim>\<open>task_embedding\<close> and \<^verbatim>\<open>metadata\<close> hold a JSON text or \<^verbatim>\<open>NULL\<close>; the value that
  the text encodes stands for the text.
\<close>

record memory_row =
  row_id :: nat
  task_hash :: unicode
  row_task :: unicode
  task_embedding :: "real list option"
  solution :: unicode
  quality_score :: real
  metadata :: "(string \<times> json_value) list option"

text \<open>The table, and the last value of its \<^verbatim>\<open>AUTOINCREMENT\<close> key.\<close>

record memory_db =
  rows :: "memory_row list"
  last_id :: nat

definition init_db :: memory_db where
  "init_db = \<lparr>rows = [], last_id = 0\<rparr>"

text \<open>\<^verbatim>\<open>json.dumps(x) if x else None\<close>: an empty list or dictionary is false.\<close>

definition dumps_if :: "'a list option \<Rightarrow> 'a list option" where
  "dumps_if x = (case x of None \<Rightarrow> None | Some v \<Rightarrow> if v = [] then None else Some v)"

text \<open>
  \<^verbatim>\<open>Smriti.store\<close>; \<open>hash_task\<close> is \<^verbatim>\<open>Smriti._hash_task\<close>, the MD5 digest of the task in
  hexadecimal, a parameter here.
\<close>

definition store ::
  "(unicode \<Rightarrow> unicode) \<Rightarrow> memory_db \<Rightarrow> unicode \<Rightarrow> unicode \<Rightarrow> real \<Rightarrow> real list option
     \<Rightarrow> (string \<times> json_value) list option \<Rightarrow> memory_db" where
  "store hash_task db tsk sol qs embedding meta =
     (let th = hash_task tsk
      in case find (\<lambda>r. task_hash r = th) (rows db) of
           Some existing \<Rightarrow>
             if qs > quality_score existing then
               db\<lparr>rows :=
                     map (\<lambda>r. if task_hash r = th
                              then r\<lparr>solution := sol, quality_score := qs,
                                     task_embedding := dumps_if embedding,
                                     metadata := dumps_if meta\<rparr>
                              else r) (rows db)\<rparr>
             else db
         | None \<Rightarrow>
             db\<lparr>rows := rows db @
                   [\<lparr>row_id = last_id db + 1, task_hash = th, row_task = tsk,
                     task_embedding = dumps_if embedding, solution = sol,
                     quality_score = qs, metadata = dumps_if meta\<rparr>],
                last_id := last_id db + 1\<rparr>)"

text \<open>The arguments of one call, and a sequence of calls on one database.\<close>

record store_args =
  arg_task :: unicode
  arg_solution :: unicode
  arg_quality_score :: real
  arg_task_embedding :: "real list option"
  arg_metadata :: "(string \<times> json_value) list option"

definition store_all :: "(unicode \<Rightarrow> unicode) \<Rightarrow> memory_db \<Rightarrow> store_args list \<Rightarrow> memory_db" where
  "store_all hash_task db calls =
     foldl (\<lambda>db a. store hash_task db (arg_task a) (arg_solution a) (arg_quality_score a)
                     (arg_task_embedding a) (arg_metadata a)) db calls"

definition lookup :: "(unicode \<Rightarrow> unicode) \<Rightarrow> memory_db \<Rightarrow> unicode \<Rightarrow> memory_row option" where
  "lookup hash_task db tsk = find (\<lambda>r. task_hash r = hash_task tsk) (rows db)"

section \<open>Notions of the specification\<close>

text \<open>The discriminator \<^verbatim>\<open>type\<close> of an event.\<close>

fun event_type :: "event \<Rightarrow> string" where
  "event_type (Start m) = ''start''"
| "event_type (RagRetrieved n) = ''rag_retrieved''"
| "event_type (MemoryFound n) = ''memory_found''"
| "event_type (IterationStart n) = ''iteration_start''"
| "event_type FirstResponseStarted = ''first_response_started''"
| "event_type (Token t c n) = ''token''"
| "event_type (FirstResponseComplete n) = ''first_response_complete''"
| "event_type (SutraStarted n) = ''sutra_started''"
| "event_type (ImprovingStarted n) = ''improving_started''"
| "event_type (ImprovedToken t n c) = ''improved_token''"
| "event_type (Improved n out sol c) = ''improved''"
| "event_type (IterationComplete n d) = ''iteration_complete''"
| "event_type (PlateauReached i m) = ''plateau_reached''"
| "event_type (End t sol sc its n rag) = ''end''"
| "event_type (Error m m') = ''error''"

text \<open>The field \<^verbatim>\<open>iteration\<close> of an event, where it has one.\<close>

fun event_iteration :: "event \<Rightarrow> nat option" where
  "event_iteration (IterationStart n) = Some n"
| "event_iteration (Token t c n) = Some n"
| "event_iteration (FirstResponseComplete n) = Some n"
| "event_iteration (SutraStarted n) = Some n"
| "event_iteration (ImprovingStarted n) = Some n"
| "event_iteration (ImprovedToken t n c) = Some n"
| "event_iteration (Improved n out sol c) = Some n"
| "event_iteration (IterationComplete n d) = Some n"
| "event_iteration ev = None"

definition is_terminal :: "event \<Rightarrow> bool" where
  "is_terminal ev = (event_type ev = ''end'' \<or> event_type ev = ''error'')"

text \<open>The round history in the payload of an event, if it carries one.\<close>

fun payload_iterations :: "event \<Rightarrow> iteration_data list option" where
  "payload_iterations (End t sol sc its n rag) = Some its"
| "payload_iterations ev = None"

text \<open>The rounds that a stream reports as complete, in order.\<close>

fun completed_rounds :: "event list \<Rightarrow> iteration_data list" where
  "completed_rounds [] = []"
| "completed_rounds (IterationComplete n d # evs) = d # completed_rounds evs"
| "completed_rounds (ev # evs) = completed_rounds evs"

text \<open>The sequence of event types of one complete round.\<close>

fun round_shape :: "string list \<Rightarrow> bool" where
  "round_shape (a # b # rest) =
     (a = ''iteration_start'' \<and> b = ''first_response_started'' \<and>
      dropWhile (\<lambda>t. t = ''token'') rest =
        [''first_response_complete'', ''sutra_started'', ''improving_started'',
         ''improved_token'', ''improved'', ''iteration_complete''])"
| "round_shape ts = False"

text \<open>
  The events \<open>evs\<close> are a complete round \<open>n\<close>: their types are those of a complete round
  in order, and every field \<^verbatim>\<open>iteration\<close> among them is \<open>n\<close>.
\<close>

definition complete_round :: "nat \<Rightarrow> event list \<Rightarrow> bool" where
  "complete_round n evs =
     (round_shape (map event_type evs) \<and>
      list_all (\<lambda>ev. event_iteration ev = None \<or> event_iteration ev = Some n) evs)"

text \<open>
  The events \<open>evs\<close> of a loop over the indices \<open>ixs\<close>, begun in the state \<open>st\<close> and ended
  with \<open>r\<close>, are the complete rounds \<open>blocks\<close>, one for each of the first indices, and
  then the events \<open>post\<close>, none of which completes a round; no event is terminal, and a
  final state holds the rounds that the events report as complete.
\<close>

definition loop_stream ::
  "nat list \<Rightarrow> loop_state \<Rightarrow> event list \<Rightarrow> exn + loop_state \<Rightarrow> event list list \<Rightarrow> event list
     \<Rightarrow> bool" where
  "loop_stream ixs st evs r blocks post =
     (evs = concat blocks @ post \<and> length blocks \<le> length ixs \<and>
      (\<forall>j<length blocks. complete_round (ixs ! j + 1) (blocks ! j)) \<and>
      (\<forall>ev\<in>set post. event_type ev \<noteq> ''iteration_complete'') \<and>
      (\<forall>ev\<in>set evs. \<not> is_terminal ev) \<and>
      length (completed_rounds evs) = length blocks \<and>
      (\<forall>st'. r = Inr st' \<longrightarrow> iterations st' = iterations st @ completed_rounds evs))"

text \<open>What a round achieved: its index, its texts and the score of the improved text.\<close>

definition round_outcome ::
  "iteration_data \<Rightarrow> nat \<times> unicode \<times> unicode \<times> unicode \<times> real \<times> score_result" where
  "round_outcome d =
     (iteration d, yantra_output d, sutra_critique d, agni_output d, score d, score_details d)"

text \<open>The state of the loop after the rounds \<open>ds\<close>, each appended and compared in turn.\<close>

definition replay :: "iteration_data list \<Rightarrow> loop_state" where
  "replay ds =
     foldl (\<lambda>st d. update_best (st\<lparr>iterations := iterations st @ [d]\<rparr>) (score d) (agni_output d))
       initial_state ds"

text \<open>No call of the backend fails in round \<open>i\<close>, and the Improver's text is not blank.\<close>

definition round_succeeds :: "env \<Rightarrow> nat \<Rightarrow> bool" where
  "round_succeeds e i =
     (generator_failure (replies e i) = None \<and>
      (case critic_reply (replies e i) of Content c \<Rightarrow> True | Failure m \<Rightarrow> False) \<and>
      (case improver_reply (replies e i) of Content c \<Rightarrow> strip c \<noteq> [] | Failure m \<Rightarrow> False))"

text \<open>
  What round \<open>i\<close> achieves when none of its calls fails, from the replies alone.
\<close>

definition planned_outcome ::
  "env \<Rightarrow> task_request \<Rightarrow> unicode list option \<Rightarrow> nat
     \<Rightarrow> nat \<times> unicode \<times> unicode \<times> unicode \<times> real \<times> score_result" where
  "planned_outcome e rq chunks i =
     (let r = replies e i;
          critique = (case critic_reply r of Content c \<Rightarrow> strip c | Failure m \<Rightarrow> []);
          improved = (case improver_reply r of Content c \<Rightarrow> strip c | Failure m \<Rightarrow> []);
          score_result = evaluate improved (task rq) (is_code rq) chunks
      in (i + 1, strip (concat (generator_chunks r)), critique, improved,
          total score_result, score_result))"

text \<open>
  The best score and the best solution \<open>sc\<close> and \<open>sol\<close> follow the history \<open>its\<close>: the
  best score never decreases from one prefix of the history to the next, both are those of
  the loop after the whole history, and for a history that is not empty the best score is
  the greatest score of its rounds and the best solution is the improved text of the first
  round that has this score.
\<close>

definition best_tracked :: "iteration_data list \<Rightarrow> real \<Rightarrow> unicode option \<Rightarrow> bool" where
  "best_tracked its sc sol =
     (list_all (\<lambda>k. best_score (replay (take k its)) \<le> best_score (replay (take (Suc k) its)))
        [0..<length its] \<and>
      sc = best_score (replay its) \<and> sol = best_solution (replay its) \<and>
      (its \<noteq> [] \<longrightarrow>
         sc = Max (score ` set its) \<and>
         (case find (\<lambda>d. score d = sc) its of
            Some d \<Rightarrow> sol = Some (agni_output d)
          | None \<Rightarrow> False)))"

text \<open>
  What an event \<^verbatim>\<open>end\<close> reports: \<^verbatim>\<open>final_solution\<close>, \<^verbatim>\<open>final_score\<close> and
  \<^verbatim>\<open>total_iterations\<close>.
\<close>

fun end_summary :: "event \<Rightarrow> (unicode option \<times> real \<times> nat) option" where
  "end_summary (End t sol sc its n rag) = Some (sol, sc, n)"
| "end_summary ev = None"

text \<open>The same three values of a result of the aggregate mode.\<close>

definition result_summary :: "session_result \<Rightarrow> unicode option \<times> real \<times> nat" where
  "result_summary res = (final_solution res, final_score res, total_iterations res)"

section \<open>Sample sessions\<close>

text \<open>
  Replies of one round in which no call fails: the Generator streams three chunks, one
  of them empty, and the Improver answers \<open>improved\<close>.
\<close>

definition scripted_round :: "unicode \<Rightarrow> round_replies" where
  "scripted_round improved =
     \<lparr>generator_chunks = [str ''a'', [], str ''b ''], generator_failure = None,
      critic_reply = Content (str ''c''), improver_reply = Content improved\<rparr>"

text \<open>The improved texts score 0.5, 0.56 and 0.59 as code, round after round.\<close>

definition rising_env :: env where
  "rising_env =
     \<lparr>rag_retrieve = [], retrieve_similar = Inr [],
      replies = (\<lambda>i. scripted_round
                   (if i = 0 then str ''x'' else if i = 1 then str ''def f'' else str ''def f #'')),
      store_failure = None\<rparr>"

text \<open>The Generator's stream breaks in the second round, after one chunk.\<close>

definition broken_env :: env where
  "broken_env =
     \<lparr>rag_retrieve = [], retrieve_similar = Inr [],
      replies = (\<lambda>i. if i = 1
                   then (scripted_round (str ''x''))\<lparr>generator_chunks := [str ''a''],
                                                generator_failure := Some (str ''timeout'')\<rparr>
                   else scripted_round (str ''x'')),
      store_failure = None\<rparr>"

text \<open>The Improver answers with an empty text.\<close>

definition blank_env :: env where
  "blank_env =
     \<lparr>rag_retrieve = [], retrieve_similar = Inr [],
      replies = (\<lambda>i. scripted_round []), store_failure = None\<rparr>"


definition code_request :: task_request where
  "code_request = \<lparr>task = str ''t'', request_context = None, use_rag = False, is_code = True\<rparr>"


definition three_rounds :: "real \<Rightarrow> orchestrator" where
  "three_rounds threshold =
     \<lparr>max_iterations = 3, min_improvement = threshold, fast_mode = True\<rparr>"

definition one_round :: orchestrator where
  "one_round = \<lparr>max_iterations = 1, min_improvement = 0.05, fast_mode = True\<rparr>"

definition failing_record_task :: operation where
  "failing_record_task =
     \<lparr>dunder_name = Some (str ''record_task''), func_str = str ''<bound method>'',
      is_coroutine_function = False, run = Raises (str ''connection refused'')\<rparr>"

definition idle_loop :: event_loop where
  "idle_loop = \<lparr>pending = [], printed = []\<rparr>"

text \<open>Every call of the Improver fails.\<close>

definition improver_down_env :: env where
  "improver_down_env =
     \<lparr>rag_retrieve = [], retrieve_similar = Inr [],
      replies = (\<lambda>i. (scripted_round (str ''x''))\<lparr>improver_reply := Failure (str ''timeout'')\<rparr>),
      store_failure = None\<rparr>"

text \<open>Three calls for one task, with the scores 0.7, 0.8 and 0.75, and one for another.\<close>

definition sample_calls :: "store_args list" where
  "sample_calls =
     [\<lparr>arg_task = str ''t'', arg_solution = str ''s1'', arg_quality_score = 0.7,
       arg_task_embedding = None, arg_metadata = Some [(''iterations'', JInt 1)]\<rparr>,
      \<lparr>arg_task = str ''t'', arg_solution = str ''s2'', arg_quality_score = 0.8,
       arg_task_embedding = None, arg_metadata = Some [(''iterations'', JInt 2)]\<rparr>,
      \<lparr>arg_task = str ''u'', arg_solution = str ''s'', arg_quality_score = 0.9,
       arg_task_embedding = None, arg_metadata = None\<rparr>,
      \<lparr>arg_task = str ''t'', arg_solution = str ''s3'', arg_quality_score = 0.75,
       arg_task_embedding = None, arg_metadata = Some [(''iterations'', JInt 3)]\<rparr>]"

section \<open>The scores of the evaluator are bounded\<close>

lemma best_practices_bounds:
  "q \<le> best_practices code q \<and> best_practices code q \<le> q + 0.4"
  by (simp add: best_practices_def code_patterns_def)

lemma evaluate_code_bounds:
  "0.5 \<le> total (evaluate_code code tsk ch) \<and> total (evaluate_code code tsk ch) \<le> 1"
proof -
  define q where "q = best_practices code 0.5"
  have q: "0.5 \<le> q" "q \<le> 0.9"
    using best_practices_bounds[of "0.5" code] by (simp_all add: q_def)
  define q' where "q' = min 1.0 (if re_search_bol import_pattern code then q + 0.1 else q)"
  define c where
    "c = min (1.0::real)
           (if contains (str ''def '') code \<or> contains (str ''function '') code \<or> contains (str ''class '') code
            then 0.5 + 0.2 else 0.5)"
  have t: "total (evaluate_code code tsk ch) = min 1.0 0.5 * 0.4 + q' * 0.3 + c * 0.3"
    by (simp add: evaluate_code_def Let_def q'_def c_def q_def)
  have q': "0.5 \<le> q'" "q' \<le> 1"
    using q by (auto simp: q'_def min_def)
  have c: "0.5 \<le> c" "c \<le> 1"
    by (auto simp: c_def min_def)
  show ?thesis
    unfolding t using q' c by (simp add: min_def)
qed

lemma evaluate_rag_bounds:
  "0.25 \<le> total (evaluate_rag_answer a ch) \<and> total (evaluate_rag_answer a ch) \<le> 1"
proof (cases "ch = None \<or> ch = Some []")
  case True
  then show ?thesis
    by (auto simp: evaluate_rag_answer_def)
next
  case False
  then obtain chunks where ch: "ch = Some chunks" "chunks \<noteq> []"
    by auto
  define g0 :: real where
    "g0 = (let answer_words = set (split_ws (lower a));
               chunk_words = set (split_ws (lower (join (str '' '') chunks)));
               overlap = card (answer_words \<inter> chunk_words);
               total_unique = card (answer_words \<union> chunk_words)
           in if total_unique > 0
              then min 1.0 (real overlap / real total_unique * 2) else 0.5)"
  define g where
    "g = min 1.0 (if re_search citation_pattern (lower a) then g0 + 0.2 else g0)"
  define cl0 :: real where
    "cl0 = (if length (split_on newline a) > 3 then 0.5 + 0.2 else 0.5)"
  define cl where
    "cl = min 1.0 (if re_search markdown_pattern a then cl0 + 0.1 else cl0)"
  have t: "total (evaluate_rag_answer a ch) = g * 0.5 + cl * 0.3 + min 1.0 0.5 * 0.2"
    by (simp add: evaluate_rag_answer_def ch Let_def g_def g0_def cl_def cl0_def)
  have g0: "0 \<le> g0"
    by (simp add: g0_def Let_def)
  have g: "0 \<le> g" "g \<le> 1"
    using g0 by (auto simp: g_def min_def)
  have cl: "0.5 \<le> cl" "cl \<le> 1"
    by (auto simp: cl_def cl0_def min_def)
  show ?thesis
    unfolding t using g cl by (simp add: min_def)
qed

lemma evaluate_positive: "0 < total (evaluate s tsk flag ch)"
  using evaluate_code_bounds[of s tsk ch] evaluate_rag_bounds[of s ch]
  by (simp add: evaluate_def)

text \<open>
  Claim C10. Whatever the solution, the task, the flag \<open>is_code\<close> and the retrieved chunks,
  the total score of \<^const>\<open>evaluate\<close> lies between 0.25 and 1, and between 0.5 and 1 when
  the solution is scored as code; the empty text scores at least 0.5 as code, and no text
  scores 0.
\<close>

theorem evaluate_total_bounds:
  "1/4 \<le> total (evaluate sol tsk flag ch) \<and> total (evaluate sol tsk flag ch) \<le> 1 \<and>
   (flag \<longrightarrow> 1/2 \<le> total (evaluate sol tsk flag ch)) \<and>
   1/2 \<le> total (evaluate [] tsk True ch) \<and>
   total (evaluate sol tsk flag ch) \<noteq> 0"
  using evaluate_code_bounds[of sol tsk ch] evaluate_rag_bounds[of sol ch]
        evaluate_code_bounds[of "[]" tsk ch]
  by (simp add: evaluate_def)

text \<open>At a text scored as code; the lower bound 0.25 is met by an answer that shares no word
  with the chunks.\<close>

theorem evaluate_total_bounds_witness:
  "(1/2::real) \<le> total (evaluate (str ''def #'') (str ''t'') True None) \<and>
   total (evaluate (str ''def #'') (str ''t'') True None) \<le> 1 \<and>
   total (evaluate (str ''a'') (str ''t'') False (Some [str ''b''])) = 1/4"
proof -
  have "total (evaluate (str ''a'') (str ''t'') False (Some [str ''b''])) = 1/4"
    by code_simp
  then show ?thesis
    using evaluate_total_bounds[of "str ''def #''" "str ''t''" True None] by simp
qed

section \<open>Texts\<close>

lemma dropWhile_fix: "xs = [] \<or> \<not> P (hd xs) \<Longrightarrow> dropWhile P xs = xs"
  by (cases xs) auto

lemma dropWhile_hd: "dropWhile P xs = [] \<or> \<not> P (hd (dropWhile P xs))"
  using hd_dropWhile by blast

lemma last_dropWhile_self: "dropWhile P xs \<noteq> [] \<Longrightarrow> last (dropWhile P xs) = last xs"
  by (metis last_appendR takeWhile_dropWhile_id)

lemma strip_idem: "strip (strip s) = strip s"
proof -
  define t where "t = dropWhile is_space s"
  define u where "u = dropWhile is_space (rev t)"
  have t: "t = [] \<or> \<not> is_space (hd t)"
    unfolding t_def by (rule dropWhile_hd)
  have "rev u = [] \<or> \<not> is_space (hd (rev u))"
  proof (cases "u = []")
    case True
    then show ?thesis by simp
  next
    case False
    then have "last u = last (rev t)"
      unfolding u_def by (rule last_dropWhile_self)
    moreover have "t \<noteq> []"
      using False by (auto simp: u_def)
    ultimately have "hd (rev u) = hd t"
      using False by (simp add: hd_rev last_rev)
    then show ?thesis
      using t \<open>t \<noteq> []\<close> by simp
  qed
  then have a: "dropWhile is_space (rev u) = rev u"
    by (rule dropWhile_fix)
  have b: "dropWhile is_space u = u"
    unfolding u_def by (simp add: dropWhile_idem)
  show ?thesis
    by (simp add: strip_def t_def[symmetric] u_def[symmetric] a b)
qed

lemma concat_nonempty: "concat (filter (\<lambda>c. c \<noteq> []) xs) = concat xs"
  by (induction xs) auto

lemma find_append:
  "find P (xs @ ys) = (case find P xs of None \<Rightarrow> find P ys | Some x \<Rightarrow> Some x)"
  by (induction xs) auto

section \<open>The best score along a history\<close>

lemma iterations_update_best [simp]: "iterations (update_best st sc sol) = iterations st"
  by (simp add: update_best_def)

lemma replay_Nil [simp]: "replay [] = initial_state"
  by (simp add: replay_def)

lemma replay_snoc:
  "replay (ds @ [d]) =
     update_best ((replay ds)\<lparr>iterations := iterations (replay ds) @ [d]\<rparr>) (score d) (agni_output d)"
  by (simp add: replay_def)

lemma iterations_replay [simp]: "iterations (replay ds) = ds"
  by (induction ds rule: rev_induct) (simp_all add: replay_snoc initial_state_def)

lemma best_score_replay_snoc:
  "best_score (replay (ds @ [d])) = max (best_score (replay ds)) (score d)"
  by (simp add: replay_snoc update_best_def max_def)

lemma best_score_replay_take:
  "best_score (replay (take k ds)) \<le> best_score (replay (take (Suc k) ds))"
proof (cases "k < length ds")
  case True
  then show ?thesis
    by (simp add: take_Suc_conv_app_nth best_score_replay_snoc)
next
  case False
  then show ?thesis by simp
qed

lemma best_score_replay_upper: "d \<in> set ds \<Longrightarrow> score d \<le> best_score (replay ds)"
  by (induction ds rule: rev_induct) (auto simp: best_score_replay_snoc)

lemma best_score_replay_Max:
  "ds \<noteq> [] \<Longrightarrow> \<forall>d\<in>set ds. 0 < score d \<Longrightarrow> best_score (replay ds) = Max (score ` set ds)"
proof (induction ds rule: rev_induct)
  case Nil
  then show ?case by simp
next
  case (snoc d ds)
  show ?case
  proof (cases "ds = []")
    case True
    then show ?thesis
      using snoc.prems best_score_replay_snoc[of "[]" d]
      by (simp add: initial_state_def max_def)
  next
    case False
    then have "best_score (replay ds) = Max (score ` set ds)"
      using snoc by simp
    then show ?thesis
      using False by (simp add: best_score_replay_snoc max.commute)
  qed
qed

lemma best_solution_replay:
  "0 < best_score (replay ds) \<Longrightarrow>
     \<exists>d. find (\<lambda>d. score d = best_score (replay ds)) ds = Some d \<and>
         best_solution (replay ds) = Some (agni_output d)"
proof (induction ds rule: rev_induct)
  case Nil
  then show ?case by (simp add: initial_state_def)
next
  case (snoc d ds)
  show ?case
  proof (cases "score d > best_score (replay ds)")
    case True
    then have "\<forall>x\<in>set ds. score x \<noteq> score d"
      using best_score_replay_upper by fastforce
    then have "find (\<lambda>x. score x = score d) ds = None"
      by (simp add: find_None_iff)
    then show ?thesis
      using True by (simp add: replay_snoc update_best_def find_append)
  next
    case False
    then have eq: "replay (ds @ [d]) = (replay ds)\<lparr>iterations := ds @ [d]\<rparr>"
      by (simp add: replay_snoc update_best_def)
    then have "0 < best_score (replay ds)"
      using snoc.prems by simp
    then obtain x where "find (\<lambda>d. score d = best_score (replay ds)) ds = Some x"
      "best_solution (replay ds) = Some (agni_output x)"
      using snoc.IH by blast
    then show ?thesis
      by (simp add: eq find_append)
  qed
qed

lemma best_tracked_replay:
  assumes "\<forall>d\<in>set ds. 0 < score d"
  shows "best_tracked ds (best_score (replay ds)) (best_solution (replay ds))"
proof -
  have mono: "list_all (\<lambda>k. best_score (replay (take k ds)) \<le> best_score (replay (take (Suc k) ds)))
      [0..<length ds]"
    by (simp add: list_all_iff best_score_replay_take)
  have last: "best_score (replay ds) = Max (score ` set ds) \<and>
     (case find (\<lambda>d. score d = best_score (replay ds)) ds of
        Some d \<Rightarrow> best_solution (replay ds) = Some (agni_output d)
      | None \<Rightarrow> False)" if ne: "ds \<noteq> []"
  proof -
    have m: "best_score (replay ds) = Max (score ` set ds)"
      using ne assms by (rule best_score_replay_Max)
    obtain d where "d \<in> set ds"
      using ne by (cases ds) auto
    then have "0 < best_score (replay ds)"
      using assms best_score_replay_upper[of d ds] by fastforce
    then show ?thesis
      using best_solution_replay[of ds] m by auto
  qed
  show ?thesis
    unfolding best_tracked_def using mono last by blast
qed

section \<open>The rounds and the loop of the aggregate mode\<close>

lemma call_ollama_Inr: "call_ollama r = Inr s \<Longrightarrow> \<exists>c. r = Content c \<and> s = strip c"
  by (cases r) auto

lemma process_round_Inr:
  assumes "process_round e rq ch i its = Inr d"
  shows "round_outcome d = planned_outcome e rq ch i \<and> 0 < score d"
proof -
  obtain y where y: "call_ollama (generator_reply (replies e i)) = Inr y"
    using assms by (auto simp: process_round_def split: sum.splits)
  obtain c where c: "call_ollama (critic_reply (replies e i)) = Inr c"
    using assms y by (auto simp: process_round_def split: sum.splits)
  obtain m where m: "call_ollama (improver_reply (replies e i)) = Inr m"
    using assms y c by (auto simp: process_round_def split: sum.splits)
  have gy: "generator_failure (replies e i) = None \<and>
      y = strip (concat (generator_chunks (replies e i)))"
    using y by (auto simp: generator_reply_def split: option.splits)
  from c obtain c' where c': "critic_reply (replies e i) = Content c'" "c = strip c'"
    using call_ollama_Inr by blast
  from m obtain m' where m': "improver_reply (replies e i) = Content m'" "m = strip m'"
    using call_ollama_Inr by blast
  show ?thesis
    using assms y c m gy c' m' evaluate_positive
    by (auto simp: process_round_def Let_def round_outcome_def planned_outcome_def
        split: if_splits)
qed

lemma process_round_succeeds:
  assumes "round_succeeds e i" "i = 0 \<or> its \<noteq> []"
  shows "\<exists>d. process_round e rq ch i its = Inr d"
  using assms
  by (auto simp: round_succeeds_def process_round_def generator_reply_def Let_def
      split: reply.splits)

lemma process_loop_replay:
  "process_loop orc e rq ch ixs st = Inr st' \<Longrightarrow> st = replay (iterations st) \<Longrightarrow>
     \<forall>d\<in>set (iterations st). 0 < score d \<Longrightarrow>
     st' = replay (iterations st') \<and> (\<forall>d\<in>set (iterations st'). 0 < score d)"
proof (induction ixs arbitrary: st)
  case Nil
  then show ?case by simp
next
  case (Cons i ixs)
  from Cons.prems(1) obtain d where d: "process_round e rq ch i (iterations st) = Inr d"
    by (auto split: sum.splits)
  define st1 where
    "st1 = update_best (st\<lparr>iterations := iterations st @ [d]\<rparr>) (score d) (agni_output d)"
  have r: "st1 = replay (iterations st1)"
    using Cons.prems(2) replay_snoc[of "iterations st" d] by (simp add: st1_def)
  have p: "\<forall>x\<in>set (iterations st1). 0 < score x"
    using Cons.prems(3) process_round_Inr[OF d] by (simp add: st1_def)
  from Cons.prems(1) d have "st' = st1 \<or> process_loop orc e rq ch ixs st1 = Inr st'"
    by (auto simp: Let_def st1_def split: if_splits)
  then show ?case
    using r p Cons.IH[of st1] by auto
qed

lemma process_loop_outcomes:
  "process_loop orc e rq ch [k..<n] st = Inr st' \<Longrightarrow> length (iterations st) = k \<Longrightarrow>
     map round_outcome (iterations st) = map (planned_outcome e rq ch) [0..<k] \<Longrightarrow>
     map round_outcome (iterations st') =
       map (planned_outcome e rq ch) [0..<length (iterations st')] \<and>
     length (iterations st') \<le> max k n \<and> (k < n \<longrightarrow> k < length (iterations st'))"
proof (induction "n - k" arbitrary: k st)
  case 0
  then show ?case by simp
next
  case (Suc m)
  then have kn: "k < n" by simp
  then have l: "[k..<n] = k # [Suc k..<n]"
    by (simp add: upt_conv_Cons)
  from Suc.prems(1) obtain d where d: "process_round e rq ch k (iterations st) = Inr d"
    unfolding l by (auto split: sum.splits)
  define st1 where
    "st1 = update_best (st\<lparr>iterations := iterations st @ [d]\<rparr>) (score d) (agni_output d)"
  have len: "length (iterations st1) = Suc k"
    using Suc.prems(2) by (simp add: st1_def)
  have out: "map round_outcome (iterations st1) = map (planned_outcome e rq ch) [0..<Suc k]"
    using Suc.prems(3) process_round_Inr[OF d] by (simp add: st1_def)
  from Suc.prems(1) d have "st' = st1 \<or> process_loop orc e rq ch [Suc k..<n] st1 = Inr st'"
    unfolding l by (auto simp: Let_def st1_def split: if_splits)
  then show ?case
  proof
    assume "st' = st1"
    then show ?thesis
      using len out kn by simp
  next
    assume a: "process_loop orc e rq ch [Suc k..<n] st1 = Inr st'"
    have m: "m = n - Suc k"
      using Suc.hyps(2) by simp
    show ?thesis
    proof (cases "Suc k < n")
      case True
      then show ?thesis
        using Suc.hyps(1)[OF m a len out] kn by auto
    next
      case False
      then have e: "[Suc k..<n] = []" by simp
      have "st' = st1"
        using a unfolding e by simp
      then show ?thesis
        using len out kn by simp
    qed
  qed
qed

lemma process_loop_total:
  "\<forall>i<n. round_succeeds e i \<Longrightarrow> length (iterations st) = k \<Longrightarrow>
     \<exists>st'. process_loop orc e rq ch [k..<n] st = Inr st'"
proof (induction "n - k" arbitrary: k st)
  case 0
  then show ?case by simp
next
  case (Suc m)
  then have kn: "k < n" by simp
  then have l: "[k..<n] = k # [Suc k..<n]"
    by (simp add: upt_conv_Cons)
  have "k = 0 \<or> iterations st \<noteq> []"
    using Suc.prems(2) by auto
  then obtain d where d: "process_round e rq ch k (iterations st) = Inr d"
    using process_round_succeeds Suc.prems(1) kn by blast
  define st1 where
    "st1 = update_best (st\<lparr>iterations := iterations st @ [d]\<rparr>) (score d) (agni_output d)"
  have len: "length (iterations st1) = Suc k"
    using Suc.prems(2) by (simp add: st1_def)
  have "m = n - Suc k"
    using Suc.hyps(2) by simp
  from Suc.hyps(1)[OF this Suc.prems(1) len] obtain st' where
    "process_loop orc e rq ch [Suc k..<n] st1 = Inr st'" by blast
  then show ?case
    unfolding l using d Suc.prems(2) by (auto simp: Let_def st1_def)
qed

section \<open>The rounds of the live mode\<close>

lemma completed_rounds_append:
  "completed_rounds (xs @ ys) = completed_rounds xs @ completed_rounds ys"
  by (induction xs rule: completed_rounds.induct) auto

lemma completed_rounds_None:
  "\<forall>ev\<in>set evs. event_type ev \<noteq> ''iteration_complete'' \<Longrightarrow> completed_rounds evs = []"
  by (induction evs rule: completed_rounds.induct) auto

lemma dropWhile_replicate_append:
  "P x \<Longrightarrow> ys = [] \<or> \<not> P (hd ys) \<Longrightarrow> dropWhile P (replicate k x @ ys) = ys"
  by (induction k) (auto simp: dropWhile_fix)

lemma live_entry_fields [simp]:
  "agni_output (live_entry rq ch i y c a) = a"
  "yantra_output (live_entry rq ch i y c a) = y"
  "sutra_critique (live_entry rq ch i y c a) = c"
  "score_details (live_entry rq ch i y c a) = evaluate a (task rq) (is_code rq) ch"
  "score (live_entry rq ch i y c a) = total (evaluate a (task rq) (is_code rq) ch)"
  "agni_score (live_entry rq ch i y c a) = Some (total (evaluate a (task rq) (is_code rq) ch))"
  "iteration (live_entry rq ch i y c a) = i + 1"
  by (simp_all add: live_entry_def Let_def)

lemma token_events_types: "map event_type (token_events i ts) = replicate (length ts) ''token''"
proof -
  have "map event_type (token_events i ts) = map (\<lambda>p. ''token'') (zip [1..<Suc (length ts)] ts)"
    by (simp add: token_events_def case_prod_beta)
  also have "\<dots> = replicate (length (zip [1..<Suc (length ts)] ts)) ''token''"
    by (rule map_replicate_const)
  finally show ?thesis by (simp del: upt_Suc)
qed

lemma token_events_form:
  "ev \<in> set (token_events i ts) \<Longrightarrow> \<exists>t k. ev = Token t k (i + 1)"
  unfolding token_events_def by fastforce

lemma token_events_facts:
  assumes "ev \<in> set (token_events i ts)"
  shows "event_iteration ev = Some (i + 1) \<and> \<not> is_terminal ev \<and> event_type ev = ''token''"
proof -
  obtain t k where "ev = Token t k (i + 1)"
    using token_events_form[OF assms] by blast
  then show ?thesis by (simp add: is_terminal_def)
qed

lemma completed_rounds_tokens [simp]: "completed_rounds (token_events i ts) = []"
  by (rule completed_rounds_None) (use token_events_facts in fastforce)

lemma live_round_gen_fail:
  "generator_failure (replies e i) = Some m \<Longrightarrow> live_round e rq ch i its =
     ([IterationStart (i + 1), FirstResponseStarted] @
                    token_events i (fst (call_ollama_stream (replies e i))),
                   Inl (Exception (str ''Error calling Ollama API: '' @ m)))"
  by (simp add: live_round_def Let_def call_ollama_stream_def)

lemma live_round_eq:
  "live_round e rq ch i its =
     (case generator_failure (replies e i) of
        Some m \<Rightarrow> ([IterationStart (i + 1), FirstResponseStarted] @
                    token_events i (fst (call_ollama_stream (replies e i))),
                   Inl (Exception (str ''Error calling Ollama API: '' @ m)))
      | None \<Rightarrow>
        (case critic_reply (replies e i) of
           Failure m \<Rightarrow> ([IterationStart (i + 1), FirstResponseStarted] @
                    token_events i (fst (call_ollama_stream (replies e i))) @
                    [FirstResponseComplete (i + 1), SutraStarted (i + 1)],
                   Inl (Exception (str ''Error calling Ollama API: '' @ m)))
         | Content c \<Rightarrow>
            if i > 0 \<and> its = [] then
              ([IterationStart (i + 1), FirstResponseStarted] @
                    token_events i (fst (call_ollama_stream (replies e i))) @
                    [FirstResponseComplete (i + 1), SutraStarted (i + 1), ImprovingStarted (i + 1)] @
                    improved_events i (improve (improver_reply (replies e i))), Inl index_error)
            else
              (let d0 = live_entry rq ch i (strip (concat (generator_chunks (replies e i)))) (strip c)
                         (improve (improver_reply (replies e i)));
                   d = (if i > 0 then d0\<lparr>iteration_improvement := Some (score d0 - get_agni_score (last its))\<rparr> else d0)
               in ([IterationStart (i + 1), FirstResponseStarted] @
                    token_events i (fst (call_ollama_stream (replies e i))) @
                    [FirstResponseComplete (i + 1), SutraStarted (i + 1), ImprovingStarted (i + 1)] @
                    improved_events i (improve (improver_reply (replies e i))) @ [IterationComplete (i + 1) d], Inr d))))"
  by (simp add: live_round_def Let_def call_ollama_stream_def concat_nonempty split: option.splits reply.splits)

lemma improved_events_facts:
  "map event_type (improved_events i a) = [''improved_token'', ''improved'']"
  "ev \<in> set (improved_events i a) \<Longrightarrow> event_iteration ev = Some (i + 1) \<and> \<not> is_terminal ev"
  "completed_rounds (improved_events i a) = []"
  by (auto simp: improved_events_def Let_def is_terminal_def)

lemma live_round_Inr:
  assumes "live_round e rq ch i its = (evs, Inr d)"
  shows "evs = [IterationStart (i + 1), FirstResponseStarted] @
     token_events i (fst (call_ollama_stream (replies e i))) @
     [FirstResponseComplete (i + 1), SutraStarted (i + 1), ImprovingStarted (i + 1)] @
     improved_events i (agni_output d) @ [IterationComplete (i + 1) d]"
   and "agni_output d = improve (improver_reply (replies e i))"
   and "score d = total (evaluate (agni_output d) (task rq) (is_code rq) ch)"
   and "agni_score d = Some (score d)"
   and "iteration d = i + 1"
   and "generator_failure (replies e i) = None"
   and "\<exists>c. critic_reply (replies e i) = Content c \<and>
     round_outcome d = (i + 1, strip (concat (generator_chunks (replies e i))), strip c, agni_output d, score d, evaluate (agni_output d) (task rq) (is_code rq) ch)"
  using assms
  by (auto simp: live_round_eq Let_def round_outcome_def split: option.splits reply.splits if_splits)

lemma live_round_Inl:
  assumes "live_round e rq ch i its = (evs, Inl x)"
  shows "\<exists>k rest. map event_type evs =
      [''iteration_start'', ''first_response_started''] @ replicate k ''token'' @ rest \<and>
      (rest = [] \<or> rest = [''first_response_complete'', ''sutra_started''] \<or>
       rest = [''first_response_complete'', ''sutra_started'', ''improving_started'',
               ''improved_token'', ''improved''])"
proof (cases "generator_failure (replies e i)")
  case (Some m)
  then have "map event_type evs = [''iteration_start'', ''first_response_started''] @
      replicate (length (fst (call_ollama_stream (replies e i)))) ''token'' @ []"
    using assms by (auto simp add: live_round_eq token_events_types)
  then show ?thesis by blast
next
  case None
  show ?thesis
  proof (cases "critic_reply (replies e i)")
    case (Failure m)
    then have "map event_type evs = [''iteration_start'', ''first_response_started''] @
        replicate (length (fst (call_ollama_stream (replies e i)))) ''token'' @
        [''first_response_complete'', ''sutra_started'']"
      using assms None by (auto simp add: live_round_eq token_events_types)
    then show ?thesis by blast
  next
    case (Content c)
    then have "map event_type evs = [''iteration_start'', ''first_response_started''] @
        replicate (length (fst (call_ollama_stream (replies e i)))) ''token'' @
        [''first_response_complete'', ''sutra_started'', ''improving_started'',
         ''improved_token'', ''improved'']"
      using assms None
      by (auto simp add: live_round_eq token_events_types improved_events_facts Let_def split: if_splits)
    then show ?thesis by blast
  qed
qed

lemma live_round_Inl_facts:
  assumes "live_round e rq ch i its = (evs, Inl x)"
  shows "completed_rounds evs = []"
    and "\<forall>ev\<in>set evs. \<not> is_terminal ev \<and> event_type ev \<noteq> ''iteration_complete'' \<and> event_type ev \<noteq> ''plateau_reached''"
proof -
  obtain k rest where m: "map event_type evs =
      [''iteration_start'', ''first_response_started''] @ replicate k ''token'' @ rest"
    and r: "rest = [] \<or> rest = [''first_response_complete'', ''sutra_started''] \<or>
       rest = [''first_response_complete'', ''sutra_started'', ''improving_started'',
               ''improved_token'', ''improved'']"
    using live_round_Inl[OF assms] by blast
  have "set (map event_type evs) \<subseteq> {''iteration_start'', ''first_response_started'', ''token'',
     ''first_response_complete'', ''sutra_started'', ''improving_started'',
     ''improved_token'', ''improved''}"
    unfolding m using r by auto
  then have a: "event_type ev \<in> {''iteration_start'', ''first_response_started'', ''token'',
     ''first_response_complete'', ''sutra_started'', ''improving_started'',
     ''improved_token'', ''improved''}" if "ev \<in> set evs" for ev
    using that by auto
  show "\<forall>ev\<in>set evs. \<not> is_terminal ev \<and> event_type ev \<noteq> ''iteration_complete'' \<and> event_type ev \<noteq> ''plateau_reached''"
    using a by (fastforce simp: is_terminal_def)
  then show "completed_rounds evs = []"
    by (simp add: completed_rounds_None)
qed

section \<open>The events of the loop of the live mode\<close>

lemma round_shape_tokens:
  "round_shape ([''iteration_start'', ''first_response_started''] @ replicate k ''token'' @
     [''first_response_complete'', ''sutra_started'', ''improving_started'',
      ''improved_token'', ''improved'', ''iteration_complete''])"
  by (simp add: dropWhile_replicate_append)

lemma live_round_Inr_block:
  assumes "live_round e rq ch i its = (evs, Inr d)"
  shows "complete_round (i + 1) evs" and "completed_rounds evs = [d]"
    and "\<forall>ev\<in>set evs. \<not> is_terminal ev"
proof -
  define ts where "ts = fst (call_ollama_stream (replies e i))"
  have evs: "evs = [IterationStart (i + 1), FirstResponseStarted] @ token_events i ts @
     [FirstResponseComplete (i + 1), SutraStarted (i + 1), ImprovingStarted (i + 1)] @
     improved_events i (agni_output d) @ [IterationComplete (i + 1) d]"
    unfolding ts_def by (rule live_round_Inr(1)[OF assms])
  have types: "map event_type evs = [''iteration_start'', ''first_response_started''] @
     replicate (length ts) ''token'' @
     [''first_response_complete'', ''sutra_started'', ''improving_started'',
      ''improved_token'', ''improved'', ''iteration_complete'']"
    unfolding evs by (simp add: token_events_types improved_events_facts)
  have shape: "round_shape (map event_type evs)"
    unfolding types by (rule round_shape_tokens)
  have its: "event_iteration ev = None \<or> event_iteration ev = Some (i + 1)" if "ev \<in> set evs" for ev
    using that unfolding evs
    by (auto dest: token_events_facts improved_events_facts(2))
  show "complete_round (i + 1) evs"
    unfolding complete_round_def list_all_iff using shape its by blast
  show "completed_rounds evs = [d]"
    unfolding evs by (simp add: completed_rounds_append improved_events_facts)
  show "\<forall>ev\<in>set evs. \<not> is_terminal ev"
    unfolding evs
    by (auto simp: is_terminal_def dest: token_events_facts improved_events_facts(2))
qed

lemma live_loop_Cons_cases:
  assumes "live_loop orc e rq ch (i # ixs) st = (evs, r)"
  obtains
    (fails) x where "live_round e rq ch i (iterations st) = (evs, Inl x)" "r = Inl x"
  | (plateau) evs0 d where "live_round e rq ch i (iterations st) = (evs0, Inr d)"
      "0 < i" "score d - get_agni_score d < min_improvement orc"
      "evs = evs0 @ [PlateauReached (score d - get_agni_score d) (min_improvement orc)]"
      "r = Inr (update_best (st\<lparr>iterations := iterations st @ [d]\<rparr>) (score d) (agni_output d))"
  | (continues) evs0 d evs1 where "live_round e rq ch i (iterations st) = (evs0, Inr d)"
      "i = 0 \<or> \<not> score d - get_agni_score d < min_improvement orc"
      "live_loop orc e rq ch ixs
         (update_best (st\<lparr>iterations := iterations st @ [d]\<rparr>) (score d) (agni_output d)) = (evs1, r)"
      "evs = evs0 @ evs1"
proof (cases "live_round e rq ch i (iterations st)")
  case (Pair evs0 res)
  show ?thesis
  proof (cases res)
    case (Inl x)
    then show ?thesis using assms Pair fails by simp
  next
    case (Inr d)
    define st1 where "st1 = update_best (st\<lparr>iterations := iterations st @ [d]\<rparr>) (score d) (agni_output d)"
    show ?thesis
    proof (cases "0 < i \<and> score d - get_agni_score d < min_improvement orc")
      case True
      then show ?thesis using assms Pair Inr plateau by (simp add: Let_def)
    next
      case False
      obtain evs1 r1 where l: "live_loop orc e rq ch ixs st1 = (evs1, r1)"
        by (cases "live_loop orc e rq ch ixs st1") auto
      have "evs = evs0 @ evs1 \<and> r = r1"
        using assms Pair Inr False l by (auto simp: Let_def emit_before_def st1_def split: if_splits)
      then show ?thesis using continues[of evs0 d evs1] Pair Inr False l unfolding st1_def by auto
    qed
  qed
qed


lemma loop_stream_fail:
  assumes "live_round e rq ch i (iterations st) = (evs, Inl x)"
  shows "loop_stream (i # ixs) st evs (Inl x) [] evs"
  using live_round_Inl_facts[OF assms] by (simp add: loop_stream_def)

lemma loop_stream_plateau:
  assumes "live_round e rq ch i (iterations st) = (evs0, Inr d)"
  shows "loop_stream (i # ixs) st (evs0 @ [PlateauReached a b])
     (Inr (update_best (st\<lparr>iterations := iterations st @ [d]\<rparr>) (score d) (agni_output d)))
     [evs0] [PlateauReached a b]"
  using live_round_Inr_block[OF assms]
  by (simp add: loop_stream_def completed_rounds_append is_terminal_def)

lemma loop_stream_continue:
  assumes "live_round e rq ch i (iterations st) = (evs0, Inr d)"
    and "loop_stream ixs
           (update_best (st\<lparr>iterations := iterations st @ [d]\<rparr>) (score d) (agni_output d))
           evs1 r blocks post"
  shows "loop_stream (i # ixs) st (evs0 @ evs1) r (evs0 # blocks) post"
proof -
  note b = live_round_Inr_block[OF assms(1)]
  define st1 where
    "st1 = update_best (st\<lparr>iterations := iterations st @ [d]\<rparr>) (score d) (agni_output d)"
  have ih: "evs1 = concat blocks @ post" "length blocks \<le> length ixs"
    "\<forall>j<length blocks. complete_round (ixs ! j + 1) (blocks ! j)"
    "\<forall>ev\<in>set post. event_type ev \<noteq> ''iteration_complete''"
    "\<forall>ev\<in>set evs1. \<not> is_terminal ev"
    "length (completed_rounds evs1) = length blocks"
    "\<forall>st'. r = Inr st' \<longrightarrow> iterations st' = iterations st1 @ completed_rounds evs1"
    using assms(2) unfolding loop_stream_def st1_def by blast+
  have cr: "completed_rounds (evs0 @ evs1) = d # completed_rounds evs1"
    using b(2) by (simp add: completed_rounds_append)
  have it: "iterations st1 = iterations st @ [d]"
    by (simp add: st1_def)
  show ?thesis
    unfolding loop_stream_def
  proof (intro conjI)
    show "evs0 @ evs1 = concat (evs0 # blocks) @ post"
      using ih(1) by simp
    show "length (evs0 # blocks) \<le> length (i # ixs)"
      using ih(2) by simp
    show "\<forall>j<length (evs0 # blocks). complete_round ((i # ixs) ! j + 1) ((evs0 # blocks) ! j)"
    proof (intro allI impI)
      fix j
      assume "j < length (evs0 # blocks)"
      then show "complete_round ((i # ixs) ! j + 1) ((evs0 # blocks) ! j)"
        using b(1) ih(3) by (cases j) simp_all
    qed
    show "\<forall>ev\<in>set post. event_type ev \<noteq> ''iteration_complete''"
      by (rule ih(4))
    show "\<forall>ev\<in>set (evs0 @ evs1). \<not> is_terminal ev"
      using b(3) ih(5) by simp blast
    show "length (completed_rounds (evs0 @ evs1)) = length (evs0 # blocks)"
      unfolding cr using ih(6) by simp
    show "\<forall>st'. r = Inr st' \<longrightarrow> iterations st' = iterations st @ completed_rounds (evs0 @ evs1)"
    proof (intro allI impI)
      fix st'
      assume "r = Inr st'"
      then have "iterations st' = iterations st1 @ completed_rounds evs1"
        using ih(7) by blast
      then show "iterations st' = iterations st @ completed_rounds (evs0 @ evs1)"
        unfolding cr it by simp
    qed
  qed
qed

lemma live_loop_events:
  "live_loop orc e rq ch ixs st = (evs, r) \<Longrightarrow> \<exists>blocks post. loop_stream ixs st evs r blocks post"
proof (induction ixs arbitrary: st evs r)
  case Nil
  then have "evs = []" "r = Inr st"
    by auto
  then have "loop_stream [] st evs r [] []"
    by (simp add: loop_stream_def)
  then show ?case by blast
next
  case (Cons i ixs)
  from Cons.prems show ?case
  proof (cases rule: live_loop_Cons_cases)
    case (fails x)
    then show ?thesis
      using loop_stream_fail by blast
  next
    case (plateau evs0 d)
    then show ?thesis
      using loop_stream_plateau by blast
  next
    case (continues evs0 d evs1)
    from Cons.IH[OF continues(3)] obtain blocks post where
      "loop_stream ixs
         (update_best (st\<lparr>iterations := iterations st @ [d]\<rparr>) (score d) (agni_output d))
         evs1 r blocks post"
      by blast
    from loop_stream_continue[OF continues(1) this] show ?thesis
      unfolding continues(4) by blast
  qed
qed

section \<open>The loop of the live mode: states and outcomes\<close>

lemma live_loop_replay:
  "live_loop orc e rq ch ixs st = (evs, Inr st') \<Longrightarrow> st = replay (iterations st) \<Longrightarrow>
     \<forall>d\<in>set (iterations st). 0 < score d \<Longrightarrow>
     st' = replay (iterations st') \<and> (\<forall>d\<in>set (iterations st'). 0 < score d)"
proof (induction ixs arbitrary: st evs)
  case Nil
  then show ?case by simp
next
  case (Cons i ixs)
  from Cons.prems(1) show ?case
  proof (cases rule: live_loop_Cons_cases)
    case (fails x)
    then show ?thesis by simp
  next
    case (plateau evs0 d)
    have "0 < score d"
      using live_round_Inr(3)[OF plateau(1)] evaluate_positive by simp
    then show ?thesis
      using plateau(5) Cons.prems(2,3) replay_snoc[of "iterations st" d] by auto
  next
    case (continues evs0 d evs1)
    define st1 where
      "st1 = update_best (st\<lparr>iterations := iterations st @ [d]\<rparr>) (score d) (agni_output d)"
    have "0 < score d"
      using live_round_Inr(3)[OF continues(1)] evaluate_positive by simp
    then have p: "\<forall>x\<in>set (iterations st1). 0 < score x"
      using Cons.prems(3) by (simp add: st1_def)
    have r: "st1 = replay (iterations st1)"
      using Cons.prems(2) replay_snoc[of "iterations st" d] by (simp add: st1_def)
    show ?thesis
      using Cons.IH[OF continues(3)[folded st1_def] r p] .
  qed
qed

lemma improve_Content: "strip c \<noteq> [] \<Longrightarrow> improve (Content c) = strip c"
  by (simp add: improve_def strip_idem)

lemma live_round_planned:
  assumes "live_round e rq ch i its = (evs, Inr d)" "round_succeeds e i"
  shows "round_outcome d = planned_outcome e rq ch i"
proof -
  obtain c where c: "critic_reply (replies e i) = Content c"
    "round_outcome d = (i + 1, strip (concat (generator_chunks (replies e i))), strip c,
       agni_output d, score d, evaluate (agni_output d) (task rq) (is_code rq) ch)"
    using live_round_Inr(7)[OF assms(1)] by blast
  obtain m where m: "improver_reply (replies e i) = Content m" "strip m \<noteq> []"
    using assms(2) by (auto simp: round_succeeds_def split: reply.splits)
  have a: "agni_output d = strip m"
    using live_round_Inr(2)[OF assms(1)] m by (simp add: improve_Content)
  have s: "score d = total (evaluate (strip m) (task rq) (is_code rq) ch)"
    using live_round_Inr(3)[OF assms(1)] a by simp
  show ?thesis
    unfolding c(2) a s by (simp add: planned_outcome_def Let_def c(1) m(1))
qed

lemma live_round_succeeds:
  assumes "generator_failure (replies e i) = None" "critic_reply (replies e i) = Content c"
    "i = 0 \<or> its \<noteq> []"
  shows "\<exists>evs d. live_round e rq ch i its = (evs, Inr d)"
  using assms by (auto simp: live_round_eq Let_def)

lemma live_loop_outcomes:
  "live_loop orc e rq ch [k..<n] st = (evs, Inr st') \<Longrightarrow> length (iterations st) = k \<Longrightarrow>
     \<forall>i<n. round_succeeds e i \<Longrightarrow>
     map round_outcome (iterations st) = map (planned_outcome e rq ch) [0..<k] \<Longrightarrow>
     map round_outcome (iterations st') =
       map (planned_outcome e rq ch) [0..<length (iterations st')] \<and>
     length (iterations st') \<le> max k n \<and> (k < n \<longrightarrow> k < length (iterations st'))"
proof (induction "n - k" arbitrary: k st evs)
  case 0
  then show ?case by simp
next
  case (Suc m)
  then have kn: "k < n" by simp
  then have l: "[k..<n] = k # [Suc k..<n]"
    by (simp add: upt_conv_Cons)
  have m: "m = n - Suc k"
    using Suc.hyps(2) by simp
  from Suc.prems(1)[unfolded l] show ?case
  proof (cases rule: live_loop_Cons_cases)
    case (fails x)
    then show ?thesis by simp
  next
    case (plateau evs0 d)
    have "round_outcome d = planned_outcome e rq ch k"
      using live_round_planned[OF plateau(1)] Suc.prems(3) kn by simp
    then show ?thesis
      using plateau(5) Suc.prems(2,4) kn by auto
  next
    case (continues evs0 d evs1)
    define st1 where
      "st1 = update_best (st\<lparr>iterations := iterations st @ [d]\<rparr>) (score d) (agni_output d)"
    have o: "round_outcome d = planned_outcome e rq ch k"
      using live_round_planned[OF continues(1)] Suc.prems(3) kn by simp
    have len: "length (iterations st1) = Suc k"
      using Suc.prems(2) by (simp add: st1_def)
    have out: "map round_outcome (iterations st1) = map (planned_outcome e rq ch) [0..<Suc k]"
      using Suc.prems(4) o by (simp add: st1_def)
    note lp = continues(3)[folded st1_def]
    show ?thesis
    proof (cases "Suc k < n")
      case True
      then show ?thesis
        using Suc.hyps(1)[OF m lp len Suc.prems(3) out] kn by auto
    next
      case False
      then have e: "[Suc k..<n] = []" by simp
      have "st' = st1"
        using lp unfolding e by simp
      then show ?thesis
        using len out kn by simp
    qed
  qed
qed

lemma live_loop_total:
  "\<forall>i<n. round_succeeds e i \<Longrightarrow> length (iterations st) = k \<Longrightarrow>
     \<exists>evs st'. live_loop orc e rq ch [k..<n] st = (evs, Inr st')"
proof (induction "n - k" arbitrary: k st)
  case 0
  then show ?case by simp
next
  case (Suc m)
  then have kn: "k < n" by simp
  then have l: "[k..<n] = k # [Suc k..<n]"
    by (simp add: upt_conv_Cons)
  have m: "m = n - Suc k"
    using Suc.hyps(2) by simp
  have "round_succeeds e k"
    using Suc.prems(1) kn by simp
  then obtain c where g: "generator_failure (replies e k) = None"
    and c: "critic_reply (replies e k) = Content c"
    by (auto simp: round_succeeds_def split: reply.splits)
  have "k = 0 \<or> iterations st \<noteq> []"
    using Suc.prems(2) by auto
  from live_round_succeeds[OF g c this] obtain evs0 d where
    d: "live_round e rq ch k (iterations st) = (evs0, Inr d)"
    by blast
  define st1 where
    "st1 = update_best (st\<lparr>iterations := iterations st @ [d]\<rparr>) (score d) (agni_output d)"
  have len: "length (iterations st1) = Suc k"
    using Suc.prems(2) by (simp add: st1_def)
  from Suc.hyps(1)[OF m Suc.prems(1) len] obtain evs1 st' where
    "live_loop orc e rq ch [Suc k..<n] st1 = (evs1, Inr st')"
    by blast
  then show ?case
    unfolding l using d by (auto simp: Let_def st1_def emit_before_def)
qed

section \<open>The sessions of the live mode\<close>

lemma generate_process_events_cases:
  obtains
    (memory_fails) m where "retrieve_similar e = Inl (Exception m)"
      "generate_process_events orc e record_task loop rq =
         (opening_events e rq [] @ [Error m m], [], loop)"
  | (loop_fails) sims evs m where "retrieve_similar e = Inr sims"
      "live_loop orc e rq (if use_rag rq then Some (rag_retrieve e) else None)
         [0..<max_iterations orc] initial_state = (evs, Inl (Exception m))"
      "generate_process_events orc e record_task loop rq =
         (opening_events e rq sims @ evs @ [Error m m], [], loop)"
  | (store_fails) sims evs st m where "retrieve_similar e = Inr sims"
      "live_loop orc e rq (if use_rag rq then Some (rag_retrieve e) else None)
         [0..<max_iterations orc] initial_state = (evs, Inr st)"
      "best_score st > 0.6" "store_failure e = Some (Exception m)"
      "generate_process_events orc e record_task loop rq =
         (opening_events e rq sims @ evs @ [Error m m], [store_best rq st], loop)"
  | (ends) sims evs st where "retrieve_similar e = Inr sims"
      "live_loop orc e rq (if use_rag rq then Some (rag_retrieve e) else None)
         [0..<max_iterations orc] initial_state = (evs, Inr st)"
      "best_score st > 0.6 \<longrightarrow> store_failure e = None"
      "generate_process_events orc e record_task loop rq =
         (opening_events e rq sims @ evs @
            [End (task rq) (best_solution st) (best_score st) (iterations st)
               (length (iterations st)) (use_rag rq)],
          if best_score st > 0.6 then [store_best rq st] else [],
          run_background_task record_task loop)"
proof (cases "retrieve_similar e")
  case (Inl x)
  then show ?thesis
    using memory_fails by (cases x) (simp add: generate_process_events_def)
next
  case (Inr sims)
  obtain evs r where l: "live_loop orc e rq (if use_rag rq then Some (rag_retrieve e) else None)
         [0..<max_iterations orc] initial_state = (evs, r)"
    by (cases "live_loop orc e rq (if use_rag rq then Some (rag_retrieve e) else None)
         [0..<max_iterations orc] initial_state") auto
  show ?thesis
  proof (cases r)
    case (Inl x)
    then show ?thesis
      using loop_fails[of sims evs] Inr l by (cases x) (simp add: generate_process_events_def)
  next
    case st: (Inr st)
    show ?thesis
    proof (cases "best_score st > 0.6")
      case False
      then show ?thesis
        using ends[of sims evs st] Inr l st by (simp add: generate_process_events_def)
    next
      case True
      show ?thesis
      proof (cases "store_failure e")
        case None
        then show ?thesis
          using ends[of sims evs st] Inr l st True by (simp add: generate_process_events_def)
      next
        case (Some x)
        then show ?thesis
          using store_fails[of sims evs st] Inr l st True
          by (cases x) (simp add: generate_process_events_def)
      qed
    qed
  qed
qed

lemma opening_events_types:
  "ev \<in> set (opening_events e rq sims) \<Longrightarrow>
     event_type ev = ''start'' \<or> event_type ev = ''rag_retrieved'' \<or>
     event_type ev = ''memory_found''"
  by (auto simp: opening_events_def split: if_splits)

lemma opening_events_facts:
  "completed_rounds (opening_events e rq sims) = []"
  "\<forall>ev\<in>set (opening_events e rq sims). \<not> is_terminal ev"
  by (auto simp: opening_events_def is_terminal_def)

lemma process_Inr:
  assumes "process orc e rq = (stores, Inr res)"
  obtains st where
    "process_loop orc e rq (if use_rag rq then Some (rag_retrieve e) else None)
       [0..<max_iterations orc] initial_state = Inr st"
    "res = session_result_of rq (if use_rag rq then Some (rag_retrieve e) else None) st"
    "stores = (if best_score st > 0.6 then [store_best rq st] else [])"
    "replay (iterations st) = st" "\<forall>d\<in>set (iterations st). 0 < score d"
proof -
  obtain st where l: "process_loop orc e rq (if use_rag rq then Some (rag_retrieve e) else None)
       [0..<max_iterations orc] initial_state = Inr st"
    using assms by (auto simp: process_def Let_def split: sum.splits)
  have r: "res = session_result_of rq (if use_rag rq then Some (rag_retrieve e) else None) st"
    and s: "stores = (if best_score st > 0.6 then [store_best rq st] else [])"
    using assms l by (auto simp: process_def Let_def split: sum.splits if_splits option.splits)
  have "st = replay (iterations st) \<and> (\<forall>d\<in>set (iterations st). 0 < score d)"
    by (rule process_loop_replay[OF l]) (simp_all add: initial_state_def)
  then have "replay (iterations st) = st" "\<forall>d\<in>set (iterations st). 0 < score d"
    by simp_all
  then show ?thesis
    using that[OF l r s] by blast
qed

lemma live_End:
  assumes "last (fst (generate_process_events orc e record_task loop rq)) = End t sol sc its n rag"
  obtains sims evs st where
    "live_loop orc e rq (if use_rag rq then Some (rag_retrieve e) else None)
         [0..<max_iterations orc] initial_state = (evs, Inr st)"
    "generate_process_events orc e record_task loop rq =
         (opening_events e rq sims @ evs @ [End t sol sc its n rag],
          if sc > 0.6 then [store_best rq st] else [],
          run_background_task record_task loop)"
    "t = task rq" "sol = best_solution st" "sc = best_score st" "its = iterations st"
    "n = length its" "rag = use_rag rq"
    "replay (iterations st) = st" "\<forall>d\<in>set (iterations st). 0 < score d"
proof (cases rule: generate_process_events_cases[of e orc record_task loop rq])
  case (memory_fails m)
  then show ?thesis using assms by simp
next
  case (loop_fails sims evs m)
  then show ?thesis using assms by simp
next
  case (store_fails sims evs st m)
  then show ?thesis using assms by simp
next
  case (ends sims evs st)
  have "st = replay (iterations st) \<and> (\<forall>d\<in>set (iterations st). 0 < score d)"
    by (rule live_loop_replay[OF ends(2)]) (simp_all add: initial_state_def)
  then have inv: "replay (iterations st) = st" "\<forall>d\<in>set (iterations st). 0 < score d"
    by simp_all
  have e: "last (fst (generate_process_events orc e record_task loop rq)) =
      End (task rq) (best_solution st) (best_score st) (iterations st)
        (length (iterations st)) (use_rag rq)"
    using ends(4) by simp
  have "End (task rq) (best_solution st) (best_score st) (iterations st)
      (length (iterations st)) (use_rag rq) = End t sol sc its n rag"
    using assms[unfolded e] .
  then have "task rq = t" "best_solution st = sol" "best_score st = sc"
    "iterations st = its" "length (iterations st) = n" "use_rag rq = rag"
    by auto
  then have eqs: "t = task rq" "sol = best_solution st" "sc = best_score st"
    "its = iterations st" "n = length its" "rag = use_rag rq"
    by auto
  show ?thesis
    using that[OF ends(2) _ eqs inv, of sims] ends(4) unfolding eqs by simp
qed

section \<open>Claim C3: the best score follows the history\<close>

text \<open>
  Claim C3. In a session of either mode that reaches its end, the best score never
  decreases as the rounds of the history are appended one by one, the final score is the
  greatest score of the rounds of the history, and the final solution is the improved
  text of the first round with this score: a later round with the same score does not
  replace it.
\<close>

theorem best_score_follows_history:
  "(process orc e rq = (stores, Inr res) \<longrightarrow>
      best_tracked (result_iterations res) (final_score res) (final_solution res)) \<and>
   (last (fst (generate_process_events orc e record_task loop rq)) = End t sol sc its n rag \<longrightarrow>
      best_tracked its sc sol)"
proof (intro conjI impI)
  assume "process orc e rq = (stores, Inr res)"
  then obtain st where
    "res = session_result_of rq (if use_rag rq then Some (rag_retrieve e) else None) st"
    "replay (iterations st) = st" "\<forall>d\<in>set (iterations st). 0 < score d"
    by (rule process_Inr)
  then show "best_tracked (result_iterations res) (final_score res) (final_solution res)"
    using best_tracked_replay[of "iterations st"] by (simp add: session_result_of_def)
next
  assume "last (fst (generate_process_events orc e record_task loop rq)) = End t sol sc its n rag"
  then obtain st where "sol = best_solution st" "sc = best_score st" "its = iterations st"
    "replay (iterations st) = st" "\<forall>d\<in>set (iterations st). 0 < score d"
    by (rule live_End)
  then show "best_tracked its sc sol"
    using best_tracked_replay[of "iterations st"] by simp
qed

text \<open>
  In the aggregate mode, on a session of three rounds with the scores 0.5, 0.56 and 0.59.
\<close>

theorem best_score_follows_history_witness:
  "\<exists>stores res. process (three_rounds 0.01) rising_env code_request = (stores, Inr res) \<and>
     map score (result_iterations res) = [0.5, 0.56, 0.59] \<and>
     best_tracked (result_iterations res) (final_score res) (final_solution res)"
proof -
  obtain stores r where p: "process (three_rounds 0.01) rising_env code_request = (stores, r)"
    by (cases "process (three_rounds 0.01) rising_env code_request") auto
  have "map_sum id (\<lambda>res. map score (result_iterations res))
      (snd (process (three_rounds 0.01) rising_env code_request)) = Inr [0.5, 0.56, 0.59]"
    by code_simp
  then obtain res where r: "r = Inr res" "map score (result_iterations res) = [0.5, 0.56, 0.59]"
    using p by (cases r) auto
  have "best_tracked (result_iterations res) (final_score res) (final_solution res)"
    using best_score_follows_history[THEN conjunct1, rule_format,
        of "three_rounds 0.01" rising_env code_request stores res] p r
    by simp
  then show ?thesis
    using p r by (intro exI[of _ stores] exI[of _ res]) simp
qed

section \<open>Claim C7: the memory is written when the best score exceeds 0.6\<close>

lemma best_solution_above:
  assumes "replay (iterations st) = st" "0 < best_score st"
  shows "best_solution st \<noteq> None"
  using best_solution_replay[of "iterations st"] assms by auto



section \<open>Claim C5: the events of a round come in order\<close>

lemma live_session_stream:
  assumes "live_loop orc e rq ch [0..<n] initial_state = (evs, r)"
  obtains blocks post where "evs = concat blocks @ post"
    "\<forall>j<length blocks. complete_round (j + 1) (blocks ! j)"
    "\<forall>ev\<in>set post. event_type ev \<noteq> ''iteration_complete''"
    "\<forall>ev\<in>set evs. \<not> is_terminal ev"
    "length (completed_rounds evs) = length blocks"
    "\<And>st. r = Inr st \<Longrightarrow> iterations st = completed_rounds evs"
proof -
  obtain blocks post where s: "loop_stream [0..<n] initial_state evs r blocks post"
    using live_loop_events[OF assms] by blast
  have 1: "evs = concat blocks @ post"
    and 2: "length blocks \<le> length [0..<n]"
    and 3: "\<forall>j<length blocks. complete_round ([0..<n] ! j + 1) (blocks ! j)"
    and 4: "\<forall>ev\<in>set post. event_type ev \<noteq> ''iteration_complete''"
    and 5: "\<forall>ev\<in>set evs. \<not> is_terminal ev"
    and 6: "length (completed_rounds evs) = length blocks"
    and 7: "\<forall>st'. r = Inr st' \<longrightarrow>
      iterations st' = iterations initial_state @ completed_rounds evs"
    using s unfolding loop_stream_def by blast+
  have c3: "\<forall>j<length blocks. complete_round (j + 1) (blocks ! j)"
  proof (intro allI impI)
    fix j
    assume j: "j < length blocks"
    then have "j < n"
      using 2 by simp
    then have "[0..<n] ! j = j"
      by simp
    then show "complete_round (j + 1) (blocks ! j)"
      using 3 j by fastforce
  qed
  have c7: "iterations st = completed_rounds evs" if "r = Inr st" for st
  proof -
    have "iterations st = iterations initial_state @ completed_rounds evs"
      using 7 that by blast
    then show ?thesis
      by (simp add: initial_state_def)
  qed
  show ?thesis
    using that[OF 1 c3 4 5 6 c7] by blast
qed

lemma stream_with_terminal:
  assumes "live_loop orc e rq ch [0..<n] initial_state = (evs, r)"
    and "event_type final \<noteq> ''iteration_complete''"
  shows "\<exists>pre blocks post. opening_events e rq sims @ evs @ [final] = pre @ concat blocks @ post \<and>
     (\<forall>ev\<in>set pre. event_type ev = ''start'' \<or> event_type ev = ''rag_retrieved'' \<or>
        event_type ev = ''memory_found'') \<and>
     (\<forall>j<length blocks. complete_round (j + 1) (blocks ! j)) \<and>
     (\<forall>ev\<in>set post. event_type ev \<noteq> ''iteration_complete'') \<and>
     length blocks = length (completed_rounds (opening_events e rq sims @ evs @ [final]))"
proof -
  from assms(1) obtain blocks post where b: "evs = concat blocks @ post"
    "\<forall>j<length blocks. complete_round (j + 1) (blocks ! j)"
    "\<forall>ev\<in>set post. event_type ev \<noteq> ''iteration_complete''"
    "length (completed_rounds evs) = length blocks"
    by (rule live_session_stream)
  have f: "completed_rounds [final] = []"
    using assms(2) by (simp add: completed_rounds_None)
  show ?thesis
  proof (intro exI conjI)
    show "opening_events e rq sims @ evs @ [final] =
        opening_events e rq sims @ concat blocks @ (post @ [final])"
      using b(1) by simp
    show "\<forall>ev\<in>set (opening_events e rq sims). event_type ev = ''start'' \<or>
        event_type ev = ''rag_retrieved'' \<or> event_type ev = ''memory_found''"
      using opening_events_types by blast
    show "\<forall>j<length blocks. complete_round (j + 1) (blocks ! j)"
      by (rule b(2))
    show "\<forall>ev\<in>set (post @ [final]). event_type ev \<noteq> ''iteration_complete''"
      using b(3) assms(2) by simp
    show "length blocks = length (completed_rounds (opening_events e rq sims @ evs @ [final]))"
      using b(4) f by (simp add: completed_rounds_append opening_events_facts(1))
  qed
qed

text \<open>
  Claim C5. The stream of a session of the live mode is made of opening events, then the
  rounds that ran to completion, one after the other, and then further events. The events
  of the \<open>n\<close>-th of these rounds are, in this order, \<^verbatim>\<open>iteration_start\<close>,
  \<^verbatim>\<open>first_response_started\<close>, any number of \<^verbatim>\<open>token\<close>, \<^verbatim>\<open>first_response_complete\<close>,
  \<^verbatim>\<open>sutra_started\<close>, \<^verbatim>\<open>improving_started\<close>, one \<^verbatim>\<open>improved_token\<close>, one \<^verbatim>\<open>improved\<close> and
  \<^verbatim>\<open>iteration_complete\<close>, all with the iteration \<open>n\<close>; no event before or after these rounds
  is an \<^verbatim>\<open>iteration_complete\<close>, so these are all the rounds that ran to completion, and
  each is over before the next begins.
\<close>

theorem round_events_in_order:
  "\<exists>pre blocks post.
     fst (generate_process_events orc e record_task loop rq) = pre @ concat blocks @ post \<and>
     (\<forall>ev\<in>set pre. event_type ev = ''start'' \<or> event_type ev = ''rag_retrieved'' \<or>
        event_type ev = ''memory_found'') \<and>
     (\<forall>j<length blocks. complete_round (j + 1) (blocks ! j)) \<and>
     (\<forall>ev\<in>set post. event_type ev \<noteq> ''iteration_complete'') \<and>
     length blocks =
       length (completed_rounds (fst (generate_process_events orc e record_task loop rq)))"
proof (cases rule: generate_process_events_cases[of e orc record_task loop rq])
  case (memory_fails m)
  show ?thesis
  proof (intro exI conjI)
    show "fst (generate_process_events orc e record_task loop rq) =
        opening_events e rq [] @ concat [] @ [Error m m]"
      using memory_fails(2) by simp
    show "\<forall>ev\<in>set (opening_events e rq []). event_type ev = ''start'' \<or>
        event_type ev = ''rag_retrieved'' \<or> event_type ev = ''memory_found''"
      using opening_events_types by blast
    show "length [] =
        length (completed_rounds (fst (generate_process_events orc e record_task loop rq)))"
      using memory_fails(2) by (simp add: completed_rounds_append opening_events_facts(1))
  qed simp_all
next
  case (loop_fails sims evs m)
  show ?thesis
    using stream_with_terminal[OF loop_fails(2), where final = "Error m m" and sims = sims] loop_fails(3)
    by simp
next
  case (store_fails sims evs st m)
  show ?thesis
    using stream_with_terminal[OF store_fails(2), where final = "Error m m" and sims = sims] store_fails(5)
    by simp
next
  case (ends sims evs st)
  show ?thesis
    using stream_with_terminal[OF ends(2),
        where final = "End (task rq) (best_solution st) (best_score st) (iterations st)
              (length (iterations st)) (use_rag rq)" and sims = sims] ends(4)
    by simp
qed

text \<open>On a session of two complete rounds.\<close>

theorem round_events_in_order_witness:
  "\<exists>pre blocks post.
     fst (generate_process_events (three_rounds 0.01) rising_env failing_record_task idle_loop
            code_request) = pre @ concat blocks @ post \<and>
     length blocks = 2 \<and> complete_round 1 (blocks ! 0) \<and> complete_round 2 (blocks ! 1)"
proof -
  have n: "length (completed_rounds (fst (generate_process_events (three_rounds 0.01) rising_env
      failing_record_task idle_loop code_request))) = 2"
    by code_simp
  obtain pre blocks post where b:
    "fst (generate_process_events (three_rounds 0.01) rising_env failing_record_task idle_loop
            code_request) = pre @ concat blocks @ post"
    "\<forall>j<length blocks. complete_round (j + 1) (blocks ! j)"
    "length blocks = length (completed_rounds (fst (generate_process_events (three_rounds 0.01)
        rising_env failing_record_task idle_loop code_request)))"
    using round_events_in_order[of "three_rounds 0.01" rising_env failing_record_task idle_loop
        code_request]
    by blast
  have l: "length blocks = 2"
    using b(3) n by simp
  have "complete_round (0 + 1) (blocks ! 0)" "complete_round (1 + 1) (blocks ! 1)"
    using b(2) l by simp_all
  then have "complete_round 1 (blocks ! 0)" "complete_round 2 (blocks ! 1)"
    by (simp_all add: numeral_2_eq_2)
  then show ?thesis
    using b(1) l by (intro exI[of _ pre] exI[of _ blocks] exI[of _ post]) simp
qed

section \<open>Claim C6: one terminal event\<close>

lemma filter_none: "\<forall>x\<in>set xs. \<not> P x \<Longrightarrow> filter P xs = []"
  by (induction xs) auto

lemma stream_terminal:
  assumes "live_loop orc e rq ch [0..<n] initial_state = (evs, r)" "is_terminal final"
    and "evs' = opening_events e rq sims @ evs @ [final]"
  shows "evs' \<noteq> []" "last evs' = final" "filter is_terminal evs' = [final]"
    "completed_rounds evs' = completed_rounds evs"
proof -
  from assms(1) have nt: "\<forall>ev\<in>set evs. \<not> is_terminal ev"
    by (rule live_session_stream)
  show "evs' \<noteq> []" "last evs' = final"
    unfolding assms(3) by simp_all
  show "filter is_terminal evs' = [final]"
    unfolding assms(3) using assms(2) nt opening_events_facts(2)[of e rq sims]
    by (simp add: filter_none)
  have "event_type final \<noteq> ''iteration_complete''"
    using assms(2) by (auto simp: is_terminal_def)
  then have "completed_rounds [final] = []"
    by (simp add: completed_rounds_None)
  then show "completed_rounds evs' = completed_rounds evs"
    unfolding assms(3) by (simp add: completed_rounds_append opening_events_facts(1))
qed

text \<open>
  Claim C6, amended. The stream of a session of the live mode ends with its only
  terminal event, \<^verbatim>\<open>end\<close> or \<^verbatim>\<open>error\<close>. The event \<^verbatim>\<open>end\<close> carries the history of the
  rounds that ran to completion and their number; the event \<^verbatim>\<open>error\<close> carries the
  message of the error and no history.
\<close>

theorem one_terminal_event:
  "evs = process_task_stream orc e record_task loop rq \<Longrightarrow>
     evs \<noteq> [] \<and> is_terminal (last evs) \<and> length (filter is_terminal evs) = 1 \<and>
     filter is_terminal evs = [last evs] \<and>
     (\<forall>t sol sc its n rag. last evs = End t sol sc its n rag \<longrightarrow>
        its = completed_rounds evs \<and> n = length its) \<and>
     (event_type (last evs) = ''error'' \<longrightarrow> payload_iterations (last evs) = None)"
proof -
  assume evs: "evs = process_task_stream orc e record_task loop rq"
  have err: "payload_iterations ev = None" if "event_type ev = ''error''" for ev
    using that by (cases ev) simp_all
  show ?thesis
  proof (cases rule: generate_process_events_cases[of e orc record_task loop rq])
    case (memory_fails m)
    then have e: "evs = opening_events e rq [] @ [Error m m]"
      using evs by (simp add: process_task_stream_def)
    have "filter is_terminal evs = [Error m m]"
      unfolding e using opening_events_facts(2)[of e rq "[]"]
      by (simp add: filter_none is_terminal_def)
    then show ?thesis
      unfolding e by (simp add: is_terminal_def)
  next
    case (loop_fails sims evs0 m)
    then have e: "evs = opening_events e rq sims @ evs0 @ [Error m m]"
      using evs by (simp add: process_task_stream_def)
    have t: "is_terminal (Error m m)"
      by (simp add: is_terminal_def)
    note s = stream_terminal[OF loop_fails(2) t e]
    show ?thesis
      using s(1) t unfolding s(2) s(3) by simp
  next
    case (store_fails sims evs0 st m)
    then have e: "evs = opening_events e rq sims @ evs0 @ [Error m m]"
      using evs by (simp add: process_task_stream_def)
    have t: "is_terminal (Error m m)"
      by (simp add: is_terminal_def)
    note s = stream_terminal[OF store_fails(2) t e]
    show ?thesis
      using s(1) t unfolding s(2) s(3) by simp
  next
    case (ends sims evs0 st)
    define final where "final = End (task rq) (best_solution st) (best_score st) (iterations st)
               (length (iterations st)) (use_rag rq)"
    have e: "evs = opening_events e rq sims @ evs0 @ [final]"
      using evs ends(4) by (simp add: process_task_stream_def final_def)
    have t: "is_terminal final"
      by (simp add: is_terminal_def final_def)
    note s = stream_terminal[OF ends(2) t e]
    have "iterations st = completed_rounds evs0"
      using ends(2) by (rule live_session_stream) simp
    then have h: "iterations st = completed_rounds evs"
      using s(4) by simp
    have ty: "event_type final \<noteq> ''error''"
      by (simp add: final_def)
    have hist: "\<forall>t sol sc its n rag. final = End t sol sc its n rag \<longrightarrow>
        its = completed_rounds evs \<and> n = length its"
      using h by (auto simp: final_def)
    show ?thesis
      using s(1) t ty hist unfolding s(2) s(3) by simp
  qed
qed

text \<open>On a session of two rounds that ends with the event \<^verbatim>\<open>end\<close>.\<close>

theorem one_terminal_event_witness:
  "process_task_stream (three_rounds 0.01) rising_env failing_record_task idle_loop code_request
     \<noteq> [] \<and>
   length (filter is_terminal
     (process_task_stream (three_rounds 0.01) rising_env failing_record_task idle_loop
        code_request)) = 1 \<and>
   event_type (last
     (process_task_stream (three_rounds 0.01) rising_env failing_record_task idle_loop
        code_request)) = ''end''"
proof -
  have "event_type (last
     (process_task_stream (three_rounds 0.01) rising_env failing_record_task idle_loop
        code_request)) = ''end''"
    by code_simp
  then show ?thesis
    using one_terminal_event[OF refl, of "three_rounds 0.01" rising_env failing_record_task
        idle_loop code_request]
    by simp
qed

text \<open>
  The claim as it stands fails where the Generator's stream breaks in the second round:
  one round ran to completion, and the terminal event, an \<^verbatim>\<open>error\<close>, carries no history.
\<close>

theorem error_event_without_history:
  "last (process_task_stream (three_rounds 0) broken_env failing_record_task idle_loop
           code_request) =
     Error (str ''Error calling Ollama API: timeout'') (str ''Error calling Ollama API: timeout'') \<and>
   payload_iterations
     (last (process_task_stream (three_rounds 0) broken_env failing_record_task idle_loop
              code_request)) = None \<and>
   map iteration
     (completed_rounds
        (process_task_stream (three_rounds 0) broken_env failing_record_task idle_loop
           code_request)) = [1]"
  by code_simp

section \<open>Claim C1: the plateau rule\<close>

text \<open>
  Claim C1, at a session whose scores rise by more than the threshold 0.01 from round to
  round: 0.5, 0.56 and 0.59. The aggregate mode runs the three rounds. The live mode
  compares the score of the second round with itself, finds the improvement 0, reports a
  plateau and ends after two rounds.
\<close>

theorem live_plateau_on_rising_scores:
  "map_sum id (\<lambda>res. (total_iterations res, map score (result_iterations res)))
     (snd (process (three_rounds 0.01) rising_env code_request)) =
     Inr (3, [0.5, 0.56, 0.59]) \<and>
   map score (completed_rounds
     (process_task_stream (three_rounds 0.01) rising_env failing_record_task idle_loop
        code_request)) = [0.5, 0.56] \<and>
   process_task_stream (three_rounds 0.01) rising_env failing_record_task idle_loop
        code_request ! 21 = PlateauReached 0 0.01 \<and>
   end_summary (last
     (process_task_stream (three_rounds 0.01) rising_env failing_record_task idle_loop
        code_request)) = Some (Some (str ''def f''), 0.56, 2)"
  by code_simp

section \<open>Claim C2: failures of the adapters\<close>

lemma strip_placeholders:
  "strip (str ''Error generating improved output. Please try again.'') =
     (str ''Error generating improved output. Please try again.'')"
  "strip (str ''Unable to generate improved output'') = str ''Unable to generate improved output''"
  by code_simp+

lemma improve_fallbacks:
  "improve (Failure m) = str ''Error generating improved output. Please try again.''"
  "strip c = [] \<Longrightarrow> improve (Content c) = str ''Unable to generate improved output''"
  by (simp_all add: improve_def strip_placeholders)

lemma live_round_recovers:
  assumes "generator_failure (replies e i) = None" "critic_reply (replies e i) = Content c"
    "i = 0 \<or> its \<noteq> []"
  shows "\<exists>evs d. live_round e rq ch i its = (evs, Inr d) \<and>
     agni_output d = improve (improver_reply (replies e i))"
proof -
  obtain evs d where r: "live_round e rq ch i its = (evs, Inr d)"
    using live_round_succeeds[OF assms] by blast
  then show ?thesis
    using live_round_Inr(2)[OF r] by blast
qed

lemma live_round_aborts:
  "generator_failure (replies e i) = Some m \<Longrightarrow>
     snd (live_round e rq ch i its) = Inl (Exception (str ''Error calling Ollama API: '' @ m))"
  "generator_failure (replies e i) = None \<Longrightarrow> critic_reply (replies e i) = Failure m \<Longrightarrow>
     snd (live_round e rq ch i its) = Inl (Exception (str ''Error calling Ollama API: '' @ m))"
  by (simp_all add: live_round_eq)

lemma live_loop_aborts:
  "snd (live_round e rq ch i (iterations st)) = Inl x \<Longrightarrow>
     snd (live_loop orc e rq ch (i # rest) st) = Inl x"
  by (cases "live_round e rq ch i (iterations st)") simp

lemma process_round_aborts:
  assumes "generator_failure (replies e i) = Some m \<or> critic_reply (replies e i) = Failure m \<or>
     improver_reply (replies e i) = Failure m"
  shows "\<exists>x. process_round e rq ch i its = Inl x"
  using assms
  by (auto simp: process_round_def generator_reply_def split: sum.splits option.splits reply.splits)

lemma process_loop_aborts:
  "process_round e rq ch i (iterations st) = Inl x \<Longrightarrow>
     process_loop orc e rq ch (i # rest) st = Inl x"
  by simp

lemma live_session_aborts:
  assumes "retrieve_similar e = Inr sims"
    and "snd (live_loop orc e rq (if use_rag rq then Some (rag_retrieve e) else None)
          [0..<max_iterations orc] initial_state) = Inl (Exception m)"
  shows "last (process_task_stream orc e record_task loop rq) = Error m m"
    and "filter (\<lambda>ev. event_type ev = ''end'')
          (process_task_stream orc e record_task loop rq) = []"
proof -
  obtain evs where l: "live_loop orc e rq (if use_rag rq then Some (rag_retrieve e) else None)
          [0..<max_iterations orc] initial_state = (evs, Inl (Exception m))"
    using assms(2)
    by (cases "live_loop orc e rq (if use_rag rq then Some (rag_retrieve e) else None)
          [0..<max_iterations orc] initial_state") auto
  have s: "process_task_stream orc e record_task loop rq =
      opening_events e rq sims @ evs @ [Error m m]"
    using assms(1) l by (simp add: process_task_stream_def generate_process_events_def)
  show "last (process_task_stream orc e record_task loop rq) = Error m m"
    unfolding s by simp
  have nt: "\<forall>ev\<in>set evs. \<not> is_terminal ev"
    using l by (rule live_session_stream)
  have "event_type ev \<noteq> ''end''" if "ev \<in> set (opening_events e rq sims @ evs)" for ev
  proof -
    have "\<not> is_terminal ev"
      using that nt opening_events_facts(2)[of e rq sims] by auto
    then show ?thesis
      by (simp add: is_terminal_def)
  qed
  then have "\<forall>ev\<in>set (process_task_stream orc e record_task loop rq).
      event_type ev \<noteq> ''end''"
    unfolding s by auto
  then show "filter (\<lambda>ev. event_type ev = ''end'')
          (process_task_stream orc e record_task loop rq) = []"
    by (simp add: filter_none)
qed

lemma process_aborts:
  assumes "retrieve_similar e = Inr sims"
    and "process_loop orc e rq (if use_rag rq then Some (rag_retrieve e) else None)
          [0..<max_iterations orc] initial_state = Inl x"
  shows "process orc e rq = ([], Inl x)"
  using assms by (simp add: process_def)

lemma live_loop_grows:
  assumes "live_loop orc e rq ch ixs st = (evs, Inr st')"
  shows "length (iterations st) \<le> length (iterations st')"
proof -
  obtain blocks post where "loop_stream ixs st evs (Inr st') blocks post"
    using live_loop_events[OF assms] by blast
  then have "iterations st' = iterations st @ completed_rounds evs"
    unfolding loop_stream_def by blast
  then show ?thesis
    by simp
qed

lemma live_loop_step:
  assumes "live_round e rq ch i (iterations st) = (evs, Inr d)"
  shows "snd (live_loop orc e rq ch (i # rest) st) =
       Inr (update_best (st\<lparr>iterations := iterations st @ [d]\<rparr>) (score d) (agni_output d)) \<or>
     snd (live_loop orc e rq ch (i # rest) st) =
       snd (live_loop orc e rq ch rest
         (update_best (st\<lparr>iterations := iterations st @ [d]\<rparr>) (score d) (agni_output d)))"
  using assms by (simp add: Let_def emit_before_def)

lemma live_loop_survives:
  "\<forall>i<n. generator_failure (replies e i) = None \<and> (\<exists>c. critic_reply (replies e i) = Content c) \<Longrightarrow>
     length (iterations st) = k \<Longrightarrow>
     \<exists>evs st'. live_loop orc e rq ch [k..<n] st = (evs, Inr st') \<and>
        (k < n \<longrightarrow> iterations st' \<noteq> [])"
proof (induction "n - k" arbitrary: k st)
  case 0
  then show ?case by simp
next
  case (Suc m)
  then have kn: "k < n" by simp
  then have l: "[k..<n] = k # [Suc k..<n]"
    by (simp add: upt_conv_Cons)
  have m: "m = n - Suc k"
    using Suc.hyps(2) by simp
  obtain c where g: "generator_failure (replies e k) = None"
    and c: "critic_reply (replies e k) = Content c"
    using Suc.prems(1) kn by blast
  have "k = 0 \<or> iterations st \<noteq> []"
    using Suc.prems(2) by auto
  from live_round_succeeds[OF g c this] obtain evs0 d where
    d: "live_round e rq ch k (iterations st) = (evs0, Inr d)"
    by blast
  define st1 where
    "st1 = update_best (st\<lparr>iterations := iterations st @ [d]\<rparr>) (score d) (agni_output d)"
  have len: "length (iterations st1) = Suc k"
    using Suc.prems(2) by (simp add: st1_def)
  from Suc.hyps(1)[OF m Suc.prems(1) len] obtain evs1 st' where
    r: "live_loop orc e rq ch [Suc k..<n] st1 = (evs1, Inr st')"
    by blast
  have "Suc k \<le> length (iterations st')"
    using live_loop_grows[OF r] len by simp
  then have ne: "iterations st' \<noteq> []"
    by auto
  have ne1: "iterations st1 \<noteq> []"
    using len by auto
  obtain evs2 r2 where r2: "live_loop orc e rq ch (k # [Suc k..<n]) st = (evs2, r2)"
    by (cases "live_loop orc e rq ch (k # [Suc k..<n]) st") auto
  from r2 show ?case
  proof (cases rule: live_loop_Cons_cases)
    case (fails x)
    then show ?thesis using d by simp
  next
    case (plateau evs3 d3)
    then have "d3 = d"
      using d by simp
    then show ?thesis
      unfolding l using r2 plateau(5) ne1 by (simp add: st1_def)
  next
    case (continues evs3 d3 evs4)
    then have "d3 = d"
      using d by simp
    then have "r2 = Inr st'"
      using continues(3) r by (simp add: st1_def)
    then show ?thesis
      unfolding l using r2 ne by simp
  qed
qed

lemma live_session_ends:
  assumes "retrieve_similar e = Inr sims" "store_failure e = None"
    and "\<forall>i<max_iterations orc.
      generator_failure (replies e i) = None \<and> (\<exists>c. critic_reply (replies e i) = Content c)"
  shows "\<exists>sol sc its.
      last (process_task_stream orc e record_task loop rq) =
        End (task rq) sol sc its (length its) (use_rag rq) \<and>
      (0 < max_iterations orc \<longrightarrow> its \<noteq> [] \<and> sol \<noteq> None)"
    and "filter (\<lambda>ev. event_type ev = ''error'')
          (process_task_stream orc e record_task loop rq) = []"
proof -
  define ch where "ch = (if use_rag rq then Some (rag_retrieve e) else None)"
  have "length (iterations initial_state) = 0"
    by (simp add: initial_state_def)
  from live_loop_survives[OF assms(3) this] obtain evs st where
    l: "live_loop orc e rq ch [0..<max_iterations orc] initial_state = (evs, Inr st)"
    and ne: "0 < max_iterations orc \<longrightarrow> iterations st \<noteq> []"
    by blast
  have s: "process_task_stream orc e record_task loop rq =
      opening_events e rq sims @ evs @
        [End (task rq) (best_solution st) (best_score st) (iterations st)
           (length (iterations st)) (use_rag rq)]"
    using assms(1,2) l
    by (auto simp: process_task_stream_def generate_process_events_def ch_def Let_def)
  have "st = replay (iterations st) \<and> (\<forall>d\<in>set (iterations st). 0 < score d)"
    by (rule live_loop_replay[OF l]) (simp_all add: initial_state_def)
  then have inv: "replay (iterations st) = st" and pos: "\<forall>d\<in>set (iterations st). 0 < score d"
    by simp_all
  have sol: "best_solution st \<noteq> None" if "0 < max_iterations orc"
  proof -
    have "iterations st \<noteq> []"
      using ne that by simp
    then obtain d where d: "d \<in> set (iterations st)"
      by (cases "iterations st") auto
    have "score d \<le> best_score (replay (iterations st))"
      using d by (rule best_score_replay_upper)
    then have "0 < best_score st"
      using pos d inv by force
    then show ?thesis
      using best_solution_above[OF inv] by simp
  qed
  show "\<exists>sol sc its.
      last (process_task_stream orc e record_task loop rq) =
        End (task rq) sol sc its (length its) (use_rag rq) \<and>
      (0 < max_iterations orc \<longrightarrow> its \<noteq> [] \<and> sol \<noteq> None)"
    unfolding s using ne sol by simp
  have nt: "\<forall>ev\<in>set evs. \<not> is_terminal ev"
    using l by (rule live_session_stream)
  have "event_type ev \<noteq> ''error''"
    if "ev \<in> set (process_task_stream orc e record_task loop rq)" for ev
  proof -
    have "ev \<in> set (opening_events e rq sims) \<or> ev \<in> set evs \<or>
        ev = End (task rq) (best_solution st) (best_score st) (iterations st)
           (length (iterations st)) (use_rag rq)"
      using that unfolding s by auto
    then show ?thesis
      using nt opening_events_facts(2)[of e rq sims] by (auto simp: is_terminal_def)
  qed
  then show "filter (\<lambda>ev. event_type ev = ''error'')
          (process_task_stream orc e record_task loop rq) = []"
    by (simp add: filter_none)
qed

text \<open>
  Claim C2, amended. In the live mode a failed call of the Improver, or a reply of it that
  is empty once stripped, is replaced by a fixed text and the round completes; the loop is
  not left at such a round: it stops there in the regular way or goes on with the rounds
  that remain. So a session in which the Generator and the Critic answer in every round,
  the memory answers and the store does not fail, ends with the event \<^verbatim>\<open>end\<close> and without
  an event \<^verbatim>\<open>error\<close>, whatever the Improver does, and its solution is not null when a
  round was asked for. A failure of the Generator or of the Critic is not recovered: the
  round raises, the loop is left at once, and the stream ends with the event \<^verbatim>\<open>error\<close>
  and has no event \<^verbatim>\<open>end\<close>. In the aggregate mode no failure is recovered: a failed
  call of the Generator, of the Critic or of the Improver makes the round, the loop and
  \<^verbatim>\<open>process\<close> raise.
\<close>

theorem adapter_failures:
  "(generator_failure (replies e i) = None \<and> critic_reply (replies e i) = Content c \<and>
    (i = 0 \<or> iterations st \<noteq> []) \<longrightarrow>
      (\<exists>evs d. live_round e rq ch i (iterations st) = (evs, Inr d) \<and>
         agni_output d =
           (case improver_reply (replies e i) of
              Failure m \<Rightarrow> str ''Error generating improved output. Please try again.''
            | Content c' \<Rightarrow>
                if strip c' = [] then str ''Unable to generate improved output'' else strip c') \<and>
         (snd (live_loop orc e rq ch (i # rest) st) =
            Inr (update_best (st\<lparr>iterations := iterations st @ [d]\<rparr>) (score d)
                  (agni_output d)) \<or>
          snd (live_loop orc e rq ch (i # rest) st) =
            snd (live_loop orc e rq ch rest
                  (update_best (st\<lparr>iterations := iterations st @ [d]\<rparr>) (score d)
                     (agni_output d)))))) \<and>
   (retrieve_similar e = Inr sims \<and> store_failure e = None \<and>
    (\<forall>j<max_iterations orc. generator_failure (replies e j) = None \<and>
        (\<exists>c. critic_reply (replies e j) = Content c)) \<longrightarrow>
      (\<exists>sol sc its.
         last (process_task_stream orc e record_task loop rq) =
           End (task rq) sol sc its (length its) (use_rag rq) \<and>
         (0 < max_iterations orc \<longrightarrow> its \<noteq> [] \<and> sol \<noteq> None)) \<and>
      filter (\<lambda>ev. event_type ev = ''error'')
        (process_task_stream orc e record_task loop rq) = []) \<and>
   (generator_failure (replies e i) = Some m \<or>
    generator_failure (replies e i) = None \<and> critic_reply (replies e i) = Failure m \<longrightarrow>
      snd (live_round e rq ch i (iterations st)) =
        Inl (Exception (str ''Error calling Ollama API: '' @ m)) \<and>
      snd (live_loop orc e rq ch (i # rest) st) =
        Inl (Exception (str ''Error calling Ollama API: '' @ m))) \<and>
   (retrieve_similar e = Inr sims \<and>
    snd (live_loop orc e rq (if use_rag rq then Some (rag_retrieve e) else None)
          [0..<max_iterations orc] initial_state) = Inl (Exception m') \<longrightarrow>
      last (process_task_stream orc e record_task loop rq) = Error m' m' \<and>
      filter (\<lambda>ev. event_type ev = ''end'')
        (process_task_stream orc e record_task loop rq) = []) \<and>
   (generator_failure (replies e i) = Some m \<or> critic_reply (replies e i) = Failure m \<or>
    improver_reply (replies e i) = Failure m \<longrightarrow>
      (\<exists>x. process_round e rq ch i (iterations st) = Inl x \<and>
           process_loop orc e rq ch (i # rest) st = Inl x)) \<and>
   (retrieve_similar e = Inr sims \<and>
    process_loop orc e rq (if use_rag rq then Some (rag_retrieve e) else None)
      [0..<max_iterations orc] initial_state = Inl x \<longrightarrow>
      process orc e rq = ([], Inl x))"
proof (intro conjI impI)
  assume a: "generator_failure (replies e i) = None \<and> critic_reply (replies e i) = Content c \<and>
    (i = 0 \<or> iterations st \<noteq> [])"
  then obtain evs d where r: "live_round e rq ch i (iterations st) = (evs, Inr d)"
    "agni_output d = improve (improver_reply (replies e i))"
    using live_round_recovers[of e i c "iterations st" rq ch] by blast
  have f: "improve (improver_reply (replies e i)) =
      (case improver_reply (replies e i) of
         Failure m \<Rightarrow> str ''Error generating improved output. Please try again.''
       | Content c' \<Rightarrow>
           if strip c' = [] then str ''Unable to generate improved output'' else strip c')"
    by (cases "improver_reply (replies e i)") (simp_all add: improve_fallbacks improve_Content)
  have "live_round e rq ch i (iterations st) = (evs, Inr d) \<and>
         agni_output d =
           (case improver_reply (replies e i) of
              Failure m \<Rightarrow> str ''Error generating improved output. Please try again.''
            | Content c' \<Rightarrow>
                if strip c' = [] then str ''Unable to generate improved output'' else strip c') \<and>
         (snd (live_loop orc e rq ch (i # rest) st) =
            Inr (update_best (st\<lparr>iterations := iterations st @ [d]\<rparr>) (score d)
                  (agni_output d)) \<or>
          snd (live_loop orc e rq ch (i # rest) st) =
            snd (live_loop orc e rq ch rest
                  (update_best (st\<lparr>iterations := iterations st @ [d]\<rparr>) (score d)
                     (agni_output d))))"
    using r(1) r(2)[unfolded f] live_loop_step[OF r(1), of orc rest] by blast
  then show "\<exists>evs d. live_round e rq ch i (iterations st) = (evs, Inr d) \<and>
         agni_output d =
           (case improver_reply (replies e i) of
              Failure m \<Rightarrow> str ''Error generating improved output. Please try again.''
            | Content c' \<Rightarrow>
                if strip c' = [] then str ''Unable to generate improved output'' else strip c') \<and>
         (snd (live_loop orc e rq ch (i # rest) st) =
            Inr (update_best (st\<lparr>iterations := iterations st @ [d]\<rparr>) (score d)
                  (agni_output d)) \<or>
          snd (live_loop orc e rq ch (i # rest) st) =
            snd (live_loop orc e rq ch rest
                  (update_best (st\<lparr>iterations := iterations st @ [d]\<rparr>) (score d)
                     (agni_output d))))"
    by blast
next
  assume a: "retrieve_similar e = Inr sims \<and> store_failure e = None \<and>
    (\<forall>j<max_iterations orc. generator_failure (replies e j) = None \<and>
        (\<exists>c. critic_reply (replies e j) = Content c))"
  then have a1: "retrieve_similar e = Inr sims" and a2: "store_failure e = None"
    and a3: "\<forall>j<max_iterations orc. generator_failure (replies e j) = None \<and>
        (\<exists>c. critic_reply (replies e j) = Content c)"
    by simp_all
  show "\<exists>sol sc its.
         last (process_task_stream orc e record_task loop rq) =
           End (task rq) sol sc its (length its) (use_rag rq) \<and>
         (0 < max_iterations orc \<longrightarrow> its \<noteq> [] \<and> sol \<noteq> None)"
    by (rule live_session_ends(1)[OF a1 a2 a3])
  show "filter (\<lambda>ev. event_type ev = ''error'')
        (process_task_stream orc e record_task loop rq) = []"
    by (rule live_session_ends(2)[OF a1 a2 a3])
next
  assume a: "generator_failure (replies e i) = Some m \<or>
    generator_failure (replies e i) = None \<and> critic_reply (replies e i) = Failure m"
  then show r: "snd (live_round e rq ch i (iterations st)) =
        Inl (Exception (str ''Error calling Ollama API: '' @ m))"
    using live_round_aborts[of e i m rq ch "iterations st"] by blast
  show "snd (live_loop orc e rq ch (i # rest) st) =
        Inl (Exception (str ''Error calling Ollama API: '' @ m))"
    using r by (rule live_loop_aborts)
next
  assume a: "retrieve_similar e = Inr sims \<and>
    snd (live_loop orc e rq (if use_rag rq then Some (rag_retrieve e) else None)
          [0..<max_iterations orc] initial_state) = Inl (Exception m')"
  show "last (process_task_stream orc e record_task loop rq) = Error m' m'"
    using live_session_aborts(1)[of e sims orc rq m'] a by blast
  show "filter (\<lambda>ev. event_type ev = ''end'')
        (process_task_stream orc e record_task loop rq) = []"
    using live_session_aborts(2)[of e sims orc rq m'] a by blast
next
  assume a: "generator_failure (replies e i) = Some m \<or> critic_reply (replies e i) = Failure m \<or>
    improver_reply (replies e i) = Failure m"
  then obtain x where x: "process_round e rq ch i (iterations st) = Inl x"
    using process_round_aborts[of e i m rq ch "iterations st"] by blast
  then have "process_loop orc e rq ch (i # rest) st = Inl x"
    by (rule process_loop_aborts)
  then show "\<exists>x. process_round e rq ch i (iterations st) = Inl x \<and>
           process_loop orc e rq ch (i # rest) st = Inl x"
    using x by blast
next
  assume "retrieve_similar e = Inr sims \<and>
    process_loop orc e rq (if use_rag rq then Some (rag_retrieve e) else None)
      [0..<max_iterations orc] initial_state = Inl x"
  then show "process orc e rq = ([], Inl x)"
    using process_aborts by blast
qed

text \<open>
  Where every call of the Improver fails, the first round of the live mode completes with
  the fixed text, and the session of three rounds ends with the event \<^verbatim>\<open>end\<close>, the fixed
  text as its solution; a reply of the Improver that is one no-break space is replaced as
  well. Where the Generator's stream breaks in the second round, that round raises.
\<close>

theorem adapter_failures_witness:
  "(\<exists>evs d. live_round improver_down_env code_request None 0 (iterations initial_state) =
       (evs, Inr d) \<and>
      agni_output d = str ''Error generating improved output. Please try again.'') \<and>
   (\<exists>sol sc its.
      last (process_task_stream (three_rounds 0) improver_down_env failing_record_task
        idle_loop code_request) = End (str ''t'') sol sc its (length its) False \<and>
      its \<noteq> [] \<and> sol \<noteq> None) \<and>
   end_summary (last
     (process_task_stream (three_rounds 0) improver_down_env failing_record_task idle_loop
        code_request)) =
     Some (Some (str ''Error generating improved output. Please try again.''), 0.5, 3) \<and>
   improve (Content [0xA0]) = str ''Unable to generate improved output'' \<and>
   snd (live_round broken_env code_request None 1 (iterations initial_state)) =
     Inl (Exception (str ''Error calling Ollama API: timeout''))"
proof -
  have g: "generator_failure (replies improver_down_env j) = None"
    "critic_reply (replies improver_down_env j) = Content (str ''c'')"
    "improver_reply (replies improver_down_env j) = Failure (str ''timeout'')" for j
    by (simp_all add: improver_down_env_def scripted_round_def)
  have 1: "\<exists>evs d. live_round improver_down_env code_request None 0 (iterations initial_state) =
       (evs, Inr d) \<and>
      agni_output d = str ''Error generating improved output. Please try again.''"
  proof -
    have h: "generator_failure (replies improver_down_env 0) = None \<and>
        critic_reply (replies improver_down_env 0) = Content (str ''c'') \<and>
        ((0::nat) = 0 \<or> iterations initial_state \<noteq> [])"
      using g[of 0] by simp
    have "\<exists>evs d. live_round improver_down_env code_request None 0 (iterations initial_state) =
          (evs, Inr d) \<and>
        agni_output d =
          (case improver_reply (replies improver_down_env 0) of
             Failure m \<Rightarrow> str ''Error generating improved output. Please try again.''
           | Content c' \<Rightarrow>
               if strip c' = [] then str ''Unable to generate improved output'' else strip c')"
      using adapter_failures[where e = improver_down_env and i = 0 and c = "str ''c''"
            and st = initial_state and rq = code_request and ch = None
            and orc = "three_rounds 0" and rest = "[]",
          THEN conjunct1, rule_format, OF h]
      by blast
    then show ?thesis
      using g(3)[of 0] by simp
  qed
  have s: "retrieve_similar improver_down_env = Inr []" "store_failure improver_down_env = None"
    "max_iterations (three_rounds 0) = 3" "task code_request = str ''t''"
    "use_rag code_request = False"
    by (simp_all add: improver_down_env_def three_rounds_def code_request_def)
  have 2: "\<exists>sol sc its.
      last (process_task_stream (three_rounds 0) improver_down_env failing_record_task
        idle_loop code_request) = End (str ''t'') sol sc its (length its) False \<and>
      its \<noteq> [] \<and> sol \<noteq> None"
  proof -
    have h: "retrieve_similar improver_down_env = Inr [] \<and>
        store_failure improver_down_env = None \<and>
        (\<forall>j<max_iterations (three_rounds 0).
           generator_failure (replies improver_down_env j) = None \<and>
           (\<exists>c. critic_reply (replies improver_down_env j) = Content c))"
      using g s by simp
    show ?thesis
      using adapter_failures[where e = improver_down_env and sims = "[]"
            and orc = "three_rounds 0" and record_task = failing_record_task
            and loop = idle_loop and rq = code_request,
          THEN conjunct2, THEN conjunct1, rule_format, THEN conjunct1, OF h] s
      by simp
  qed
  have 3: "end_summary (last
     (process_task_stream (three_rounds 0) improver_down_env failing_record_task idle_loop
        code_request)) =
     Some (Some (str ''Error generating improved output. Please try again.''), 0.5, 3)"
    by code_simp
  have 4: "improve (Content [0xA0]) = str ''Unable to generate improved output''"
    by code_simp
  have b: "generator_failure (replies broken_env 1) = Some (str ''timeout'')"
    by (simp add: broken_env_def scripted_round_def)
  have 5: "snd (live_round broken_env code_request None 1 (iterations initial_state)) =
     Inl (Exception (str ''Error calling Ollama API: timeout''))"
    using adapter_failures[THEN conjunct2, THEN conjunct2, THEN conjunct1, rule_format,
        THEN conjunct1, of broken_env 1 "str ''timeout''" code_request None initial_state] b
    by (simp add: str_def)
  show ?thesis
    using 1 2 3 4 5 by blast
qed

text \<open>
  The claim as it stands fails where the Generator's stream breaks in the second round of
  a session of three rounds: the live mode ends with the event \<^verbatim>\<open>error\<close> in the second
  round, without an event \<^verbatim>\<open>end\<close>, and \<^verbatim>\<open>process\<close> raises.
\<close>

theorem generator_failure_ends_session:
  "map event_type
     (process_task_stream (three_rounds 0) broken_env failing_record_task idle_loop
        code_request) =
     [''start'', ''iteration_start'', ''first_response_started'', ''token'', ''token'',
      ''first_response_complete'', ''sutra_started'', ''improving_started'',
      ''improved_token'', ''improved'', ''iteration_complete'',
      ''iteration_start'', ''first_response_started'', ''token'', ''error''] \<and>
   filter (\<lambda>ev. event_type ev = ''end'')
     (process_task_stream (three_rounds 0) broken_env failing_record_task idle_loop
        code_request) = [] \<and>
   process (three_rounds 0) broken_env code_request =
     ([], Inl (Exception (str ''Error calling Ollama API: timeout'')))"
  by code_simp

section \<open>Claim C4: the two modes on the same replies\<close>

lemma replay_outcomes:
  "map round_outcome xs = map round_outcome ys \<Longrightarrow>
     best_score (replay xs) = best_score (replay ys) \<and>
     best_solution (replay xs) = best_solution (replay ys)"
proof (induction xs arbitrary: ys rule: rev_induct)
  case Nil
  then show ?case by simp
next
  case (snoc x xs)
  then have "ys \<noteq> []"
    by auto
  then obtain y ys' where ys: "ys = ys' @ [y]"
    using rev_exhaust by blast
  have m: "map round_outcome xs = map round_outcome ys'" and o: "round_outcome x = round_outcome y"
    using snoc.prems unfolding ys by simp_all
  have xy: "score x = score y" "agni_output x = agni_output y"
    using o by (simp_all add: round_outcome_def)
  show ?case
    using snoc.IH[OF m] xy unfolding ys by (simp add: replay_snoc update_best_def)
qed

lemma sample_rounds_succeed: "round_succeeds rising_env i"
proof -
  have 1: "strip (str ''x'') \<noteq> []"
    by code_simp
  have 2: "strip (str ''def f'') \<noteq> []"
    by code_simp
  have 3: "strip (str ''def f #'') \<noteq> []"
    by code_simp
  show ?thesis
    using 1 2 3 by (simp add: round_succeeds_def rising_env_def scripted_round_def)
qed

text \<open>
  Claim C4, amended. Take a request and replies in which no call fails and no text of the
  Improver is blank. Then both modes reach their end, and every round that both of them
  run has the same index, the same texts and the same score of the improved text in the
  two histories; when the two histories have the same length, the event \<^verbatim>\<open>end\<close> and the
  result of \<^verbatim>\<open>process\<close> hold the same final solution, final score and number of rounds.
\<close>

theorem modes_agree_on_common_rounds:
  assumes "\<forall>i<max_iterations orc. round_succeeds e i"
    and "retrieve_similar e = Inr sims" and "store_failure e = None"
  shows "\<exists>stores res t sol sc its n rag.
     process orc e rq = (stores, Inr res) \<and>
     last (process_task_stream orc e record_task loop rq) = End t sol sc its n rag \<and>
     (\<forall>j. j < length its \<and> j < length (result_iterations res) \<longrightarrow>
        round_outcome (its ! j) = round_outcome (result_iterations res ! j)) \<and>
     (length its = length (result_iterations res) \<longrightarrow> (sol, sc, n) = result_summary res)"
proof -
  define ch where "ch = (if use_rag rq then Some (rag_retrieve e) else None)"
  define n where "n = max_iterations orc"
  have i0: "length (iterations initial_state) = 0"
    "map round_outcome (iterations initial_state) = map (planned_outcome e rq ch) [0..<0]"
    by (simp_all add: initial_state_def)
  have ok: "\<forall>i<n. round_succeeds e i"
    using assms(1) by (simp add: n_def)
  obtain sa where sa: "process_loop orc e rq ch [0..<n] initial_state = Inr sa"
    using process_loop_total[OF ok i0(1)] by blast
  obtain evs sl where sl: "live_loop orc e rq ch [0..<n] initial_state = (evs, Inr sl)"
    using live_loop_total[OF ok i0(1)] by blast
  have oa: "map round_outcome (iterations sa) =
      map (planned_outcome e rq ch) [0..<length (iterations sa)]"
    using process_loop_outcomes[OF sa i0] by blast
  have ol: "map round_outcome (iterations sl) =
      map (planned_outcome e rq ch) [0..<length (iterations sl)]"
    using live_loop_outcomes[OF sl i0(1) ok i0(2)] by blast
  have ra: "replay (iterations sa) = sa"
    using process_loop_replay[OF sa] by (simp add: initial_state_def)
  have rl: "replay (iterations sl) = sl"
    using live_loop_replay[OF sl] by (simp add: initial_state_def)
  define res where "res = session_result_of rq ch sa"
  have p: "process orc e rq = (if best_score sa > 0.6 then [store_best rq sa] else [], Inr res)"
    using sa assms(2,3) by (simp add: process_def ch_def n_def res_def)
  have "fst (generate_process_events orc e record_task loop rq) =
      opening_events e rq sims @ evs @
        [End (task rq) (best_solution sl) (best_score sl) (iterations sl)
           (length (iterations sl)) (use_rag rq)]"
    using sl assms(2,3) by (simp add: generate_process_events_def ch_def n_def Let_def)
  then have l: "last (process_task_stream orc e record_task loop rq) =
      End (task rq) (best_solution sl) (best_score sl) (iterations sl)
        (length (iterations sl)) (use_rag rq)"
    by (simp add: process_task_stream_def)
  have common: "round_outcome (iterations sl ! j) = round_outcome (result_iterations res ! j)"
    if "j < length (iterations sl) \<and> j < length (result_iterations res)" for j
  proof -
    have ja: "j < length (iterations sa)" and jl: "j < length (iterations sl)"
      using that by (simp_all add: res_def session_result_of_def)
    have "round_outcome (iterations sl ! j) = map round_outcome (iterations sl) ! j"
      using jl by simp
    also have "\<dots> = planned_outcome e rq ch j"
      unfolding ol using jl by simp
    also have "\<dots> = map round_outcome (iterations sa) ! j"
      unfolding oa using ja by simp
    also have "\<dots> = round_outcome (iterations sa ! j)"
      using ja by simp
    finally show ?thesis
      by (simp add: res_def session_result_of_def)
  qed
  have same: "(best_solution sl, best_score sl, length (iterations sl)) = result_summary res"
    if "length (iterations sl) = length (result_iterations res)"
  proof -
    have len: "length (iterations sl) = length (iterations sa)"
      using that by (simp add: res_def session_result_of_def)
    have "map round_outcome (iterations sl) = map round_outcome (iterations sa)"
      unfolding oa ol len ..
    then have "best_score (replay (iterations sl)) = best_score (replay (iterations sa)) \<and>
        best_solution (replay (iterations sl)) = best_solution (replay (iterations sa))"
      by (rule replay_outcomes)
    then have "best_score sl = best_score sa \<and> best_solution sl = best_solution sa"
      unfolding ra rl .
    then show ?thesis
      using len by (simp add: result_summary_def res_def session_result_of_def)
  qed
  show ?thesis
    using p l common same by blast
qed

text \<open>
  On the session with the scores 0.5, 0.56 and 0.59: the aggregate mode runs three rounds,
  the live mode two, and the two rounds that both run agree.
\<close>

theorem modes_agree_on_common_rounds_witness:
  "\<exists>stores res t sol sc its n rag.
     process (three_rounds 0.01) rising_env code_request = (stores, Inr res) \<and>
     last (process_task_stream (three_rounds 0.01) rising_env failing_record_task idle_loop
       code_request) = End t sol sc its n rag \<and>
     length its = 2 \<and> length (result_iterations res) = 3 \<and>
     round_outcome (its ! 0) = round_outcome (result_iterations res ! 0) \<and>
     round_outcome (its ! 1) = round_outcome (result_iterations res ! 1)"
proof -
  have h1: "\<forall>i<max_iterations (three_rounds 0.01). round_succeeds rising_env i"
    using sample_rounds_succeed by blast
  have h2: "retrieve_similar rising_env = Inr []" "store_failure rising_env = None"
    by (simp_all add: rising_env_def)
  note h = h1 h2
  obtain stores res t sol sc its n rag where a:
    "process (three_rounds 0.01) rising_env code_request = (stores, Inr res)"
    "last (process_task_stream (three_rounds 0.01) rising_env failing_record_task idle_loop
       code_request) = End t sol sc its n rag"
    "\<forall>j. j < length its \<and> j < length (result_iterations res) \<longrightarrow>
        round_outcome (its ! j) = round_outcome (result_iterations res ! j)"
    using modes_agree_on_common_rounds[OF h, of code_request failing_record_task idle_loop]
    by blast
  have "map_sum id (\<lambda>res. length (result_iterations res))
      (snd (process (three_rounds 0.01) rising_env code_request)) = Inr 3"
    by code_simp
  then have la: "length (result_iterations res) = 3"
    using a(1) by simp
  have "map_option length (payload_iterations (last
      (process_task_stream (three_rounds 0.01) rising_env failing_record_task idle_loop
         code_request))) = Some 2"
    by code_simp
  then have ll: "length its = 2"
    using a(2) by simp
  have "round_outcome (its ! 0) = round_outcome (result_iterations res ! 0)"
    "round_outcome (its ! 1) = round_outcome (result_iterations res ! 1)"
    using a(3) la ll by simp_all
  then show ?thesis
    using a(1,2) la ll
    by (intro exI[of _ stores] exI[of _ res] exI[of _ t] exI[of _ sol] exI[of _ sc]
        exI[of _ its] exI[of _ n] exI[of _ rag]) simp
qed

text \<open>
  The claim as it stands fails where the Improver answers with an empty text, in a session
  of one round: the aggregate mode keeps the empty text as its final solution, the live
  mode replaces it with a fixed text.
\<close>

theorem modes_differ_on_empty_improvement:
  "map_sum id result_summary (snd (process one_round blank_env code_request)) =
     Inr (Some [], 0.5, 1) \<and>
   end_summary (last
     (process_task_stream one_round blank_env failing_record_task idle_loop code_request)) =
     Some (Some (str ''Unable to generate improved output''), 0.5, 1)"
  by code_simp

section \<open>Claim C8: one record for each fingerprint\<close>

lemma find_map_same:
  "(\<And>x. P (f x) = P x) \<Longrightarrow> find P (map f xs) = map_option f (find P xs)"
  by (induction xs) auto

lemma find_map_other:
  "(\<And>x. Q (f x) = Q x) \<Longrightarrow> (\<And>x. Q x \<Longrightarrow> f x = x) \<Longrightarrow>
     find Q (map f xs) = find Q xs"
  by (induction xs) auto

lemma store_rows:
  "rows (store h db tsk sol qs emb meta) =
     (case find (\<lambda>r. task_hash r = h tsk) (rows db) of
        Some existing \<Rightarrow>
          if qs > quality_score existing then
            map (\<lambda>r. if task_hash r = h tsk
                     then r\<lparr>solution := sol, quality_score := qs,
                            task_embedding := dumps_if emb, metadata := dumps_if meta\<rparr>
                     else r) (rows db)
          else rows db
      | None \<Rightarrow>
          rows db @
            [\<lparr>row_id = last_id db + 1, task_hash = h tsk, row_task = tsk,
              task_embedding = dumps_if emb, solution = sol, quality_score = qs,
              metadata = dumps_if meta\<rparr>])"
  by (simp add: store_def Let_def split: option.splits)

lemma store_hashes:
  "map task_hash (rows (store h db tsk sol qs emb meta)) =
     (if find (\<lambda>r. task_hash r = h tsk) (rows db) = None
      then map task_hash (rows db) @ [h tsk] else map task_hash (rows db))"
proof -
  have "map task_hash
      (map (\<lambda>r. if task_hash r = h tsk
                then r\<lparr>solution := sol, quality_score := qs,
                       task_embedding := dumps_if emb, metadata := dumps_if meta\<rparr>
                else r) xs) = map task_hash xs" for xs
    by (induction xs) auto
  then show ?thesis
    by (auto simp: store_rows split: option.splits)
qed

lemma store_distinct:
  assumes "distinct (map task_hash (rows db))"
  shows "distinct (map task_hash (rows (store h db tsk sol qs emb meta)))"
proof (cases "find (\<lambda>r. task_hash r = h tsk) (rows db)")
  case None
  then have "h tsk \<notin> set (map task_hash (rows db))"
    by (auto simp: find_None_iff)
  then show ?thesis
    using assms None by (simp add: store_hashes)
next
  case (Some r)
  then show ?thesis
    using assms by (simp add: store_hashes)
qed

lemma store_all_distinct:
  "distinct (map task_hash (rows db)) \<Longrightarrow>
     distinct (map task_hash (rows (store_all h db calls)))"
proof (induction calls arbitrary: db)
  case Nil
  then show ?case by (simp add: store_all_def)
next
  case (Cons a calls)
  have "distinct (map task_hash (rows (store h db (arg_task a) (arg_solution a)
      (arg_quality_score a) (arg_task_embedding a) (arg_metadata a))))"
    using Cons.prems by (rule store_distinct)
  from Cons.IH[OF this] show ?case
    by (simp add: store_all_def)
qed

lemma store_better:
  assumes "lookup h db tsk = Some r" "qs > quality_score r"
  shows "lookup h (store h db tsk sol qs emb meta) tsk =
      Some (r\<lparr>solution := sol, quality_score := qs, task_embedding := dumps_if emb,
              metadata := dumps_if meta\<rparr>)"
proof -
  have f: "find (\<lambda>r. task_hash r = h tsk) (rows db) = Some r"
    using assms(1) by (simp add: lookup_def)
  then have th: "task_hash r = h tsk"
    by (auto simp: find_Some_iff)
  have "find (\<lambda>r. task_hash r = h tsk)
      (map (\<lambda>r. if task_hash r = h tsk
                then r\<lparr>solution := sol, quality_score := qs,
                       task_embedding := dumps_if emb, metadata := dumps_if meta\<rparr>
                else r) (rows db)) =
    map_option (\<lambda>r. if task_hash r = h tsk
                then r\<lparr>solution := sol, quality_score := qs,
                       task_embedding := dumps_if emb, metadata := dumps_if meta\<rparr>
                else r) (find (\<lambda>r. task_hash r = h tsk) (rows db))"
    by (rule find_map_same) simp
  then show ?thesis
    using f th assms(2) by (simp add: lookup_def store_rows)
qed

lemma store_not_better:
  assumes "lookup h db tsk = Some r" "\<not> qs > quality_score r"
  shows "store h db tsk sol qs emb meta = db"
  using assms by (simp add: lookup_def store_def)

lemma store_new:
  assumes "lookup h db tsk = None"
  shows "rows (store h db tsk sol qs emb meta) =
      rows db @
        [\<lparr>row_id = last_id db + 1, task_hash = h tsk, row_task = tsk,
          task_embedding = dumps_if emb, solution = sol, quality_score = qs,
          metadata = dumps_if meta\<rparr>]"
  using assms by (simp add: lookup_def store_rows)

lemma store_other:
  assumes "h tsk' \<noteq> h tsk"
  shows "lookup h (store h db tsk sol qs emb meta) tsk' = lookup h db tsk'"
proof -
  have "find (\<lambda>r. task_hash r = h tsk')
      (map (\<lambda>r. if task_hash r = h tsk
                then r\<lparr>solution := sol, quality_score := qs,
                       task_embedding := dumps_if emb, metadata := dumps_if meta\<rparr>
                else r) (rows db)) = find (\<lambda>r. task_hash r = h tsk') (rows db)"
    by (rule find_map_other) (use assms in auto)
  then show ?thesis
    using assms by (auto simp: lookup_def store_rows find_append split: option.splits)
qed

text \<open>
  Claim C8. Starting from a table with at most one row for each fingerprint, as the
  constraint \<^verbatim>\<open>UNIQUE\<close> on \<^verbatim>\<open>task_hash\<close> keeps it, every sequence of calls of
  \<^verbatim>\<open>Smriti.store\<close> leaves at most one row for each fingerprint. A call for a fingerprint
  that has a row overwrites the solution, the score, the embedding and the metadata of
  this row when the new score is greater than the stored one, and leaves the whole
  database as it is otherwise; a call for a new fingerprint appends a row; the rows of
  other fingerprints are not touched.
\<close>

theorem store_keeps_best_record:
  "distinct (map task_hash (rows db)) \<Longrightarrow>
     distinct (map task_hash (rows (store_all hash_task db calls))) \<and>
     (lookup hash_task db tsk = Some r \<and> qs > quality_score r \<longrightarrow>
        lookup hash_task (store hash_task db tsk sol qs emb meta) tsk =
          Some (r\<lparr>solution := sol, quality_score := qs, task_embedding := dumps_if emb,
                  metadata := dumps_if meta\<rparr>) \<and>
        length (rows (store hash_task db tsk sol qs emb meta)) = length (rows db)) \<and>
     (lookup hash_task db tsk = Some r \<and> \<not> qs > quality_score r \<longrightarrow>
        store hash_task db tsk sol qs emb meta = db) \<and>
     (lookup hash_task db tsk = None \<longrightarrow>
        rows (store hash_task db tsk sol qs emb meta) =
          rows db @
            [\<lparr>row_id = last_id db + 1, task_hash = hash_task tsk, row_task = tsk,
              task_embedding = dumps_if emb, solution = sol, quality_score = qs,
              metadata = dumps_if meta\<rparr>]) \<and>
     (hash_task tsk' \<noteq> hash_task tsk \<longrightarrow>
        lookup hash_task (store hash_task db tsk sol qs emb meta) tsk' =
          lookup hash_task db tsk')"
proof (intro conjI impI)
  assume d: "distinct (map task_hash (rows db))"
  show "distinct (map task_hash (rows (store_all hash_task db calls)))"
    using d by (rule store_all_distinct)
  show "lookup hash_task (store hash_task db tsk sol qs emb meta) tsk =
          Some (r\<lparr>solution := sol, quality_score := qs, task_embedding := dumps_if emb,
                  metadata := dumps_if meta\<rparr>)"
    if "lookup hash_task db tsk = Some r \<and> qs > quality_score r"
    using that store_better by blast
  show "length (rows (store hash_task db tsk sol qs emb meta)) = length (rows db)"
    if "lookup hash_task db tsk = Some r \<and> qs > quality_score r"
    using that by (simp add: lookup_def store_rows)
  show "store hash_task db tsk sol qs emb meta = db"
    if "lookup hash_task db tsk = Some r \<and> \<not> qs > quality_score r"
    using that store_not_better by blast
  show "rows (store hash_task db tsk sol qs emb meta) =
          rows db @
            [\<lparr>row_id = last_id db + 1, task_hash = hash_task tsk, row_task = tsk,
              task_embedding = dumps_if emb, solution = sol, quality_score = qs,
              metadata = dumps_if meta\<rparr>]"
    if "lookup hash_task db tsk = None"
    using that by (rule store_new)
  show "lookup hash_task (store hash_task db tsk sol qs emb meta) tsk' =
          lookup hash_task db tsk'"
    if "hash_task tsk' \<noteq> hash_task tsk"
    using that by (rule store_other)
qed

text \<open>
  On the empty table, with the task as its own fingerprint: the calls with the scores 0.7,
  0.8 and 0.75 for one task leave one row for it, with the solution of the score 0.8.
\<close>

theorem store_keeps_best_record_witness:
  "distinct (map task_hash (rows init_db)) \<and>
   distinct (map task_hash (rows (store_all (\<lambda>t. t) init_db sample_calls))) \<and>
   map (\<lambda>r. (task_hash r, solution r, quality_score r, metadata r))
     (rows (store_all (\<lambda>t. t) init_db sample_calls)) =
     [(str ''t'', str ''s2'', 0.8, Some [(''iterations'', JInt 2)]), (str ''u'', str ''s'', 0.9, None)]"
proof -
  have d: "distinct (map task_hash (rows init_db))"
    by (simp add: init_db_def)
  have "map (\<lambda>r. (task_hash r, solution r, quality_score r, metadata r))
     (rows (store_all (\<lambda>t. t) init_db sample_calls)) =
     [(str ''t'', str ''s2'', 0.8, Some [(''iterations'', JInt 2)]), (str ''u'', str ''s'', 0.9, None)]"
    by code_simp
  then show ?thesis
    using d store_keeps_best_record[OF d, of "\<lambda>t. t" sample_calls] by simp
qed

section \<open>Claim C9: operations in the background\<close>

lemma safe_wrapper_returns: "snd (safe_wrapper func) = Inr ()"
  by (cases "run func") (simp_all add: safe_wrapper_def Let_def)

lemma safe_wrapper_lines:
  "run func = Returns \<Longrightarrow> fst (safe_wrapper func) = []"
  "run func = Raises msg \<Longrightarrow> fst (safe_wrapper func) =
     [warning_sign @ str '' Background task error ('' @
        (case dunder_name func of Some n \<Rightarrow> n | None \<Rightarrow> func_str func) @ str ''): '' @ msg]"
  by (simp_all add: safe_wrapper_def Let_def)

lemma run_next_submitted:
  assumes "pending loop = []"
  shows "run_next (run_background_task func loop) =
     loop\<lparr>printed := printed loop @ fst (safe_wrapper func)\<rparr>"
proof -
  obtain out where "safe_wrapper func = (out, Inr ())"
    using safe_wrapper_returns[of func] by (cases "safe_wrapper func") auto
  then show ?thesis
    using assms by (simp add: run_next_def run_background_task_def)
qed

lemma process_task_response:
  "fst (process_task orc e func loop rq) = fst (process_task orc e func' loop' rq)"
  "fst (snd (process_task orc e func loop rq)) = fst (snd (process_task orc e func' loop' rq))"
  "printed (snd (snd (process_task orc e func loop rq))) = printed loop"
  by (auto simp: process_task_def run_background_task_def split: prod.splits sum.splits exn.splits)

lemma generate_process_events_response:
  "fst (generate_process_events orc e func loop rq) =
     fst (generate_process_events orc e func' loop' rq)"
  "fst (snd (generate_process_events orc e func loop rq)) =
     fst (snd (generate_process_events orc e func' loop' rq))"
  "printed (snd (snd (generate_process_events orc e func loop rq))) = printed loop"
proof -
  show "fst (generate_process_events orc e func loop rq) =
     fst (generate_process_events orc e func' loop' rq)"
    by (cases rule: generate_process_events_cases[of e orc func loop rq];
        cases rule: generate_process_events_cases[of e orc func' loop' rq]) auto
  show "fst (snd (generate_process_events orc e func loop rq)) =
     fst (snd (generate_process_events orc e func' loop' rq))"
    by (cases rule: generate_process_events_cases[of e orc func loop rq];
        cases rule: generate_process_events_cases[of e orc func' loop' rq]) auto
  show "printed (snd (snd (generate_process_events orc e func loop rq))) = printed loop"
    by (cases rule: generate_process_events_cases[of e orc func loop rq])
      (auto simp: run_background_task_def)
qed

text \<open>
  Claim C9. \<^verbatim>\<open>run_background_task\<close> creates the task of the operation and returns: the
  operation is put behind the tasks that wait, and nothing of it has run. The task never
  ends with an exception: when the operation raises an exception of class
  \<^verbatim>\<open>Exception\<close>, the task prints one line with the name of the operation (its attribute
  \<^verbatim>\<open>__name__\<close>, or \<^verbatim>\<open>str(func)\<close> without it) and the message, and returns; when the
  operation returns, nothing is printed. So the event loop, running a submitted task,
  records no exception. The response of \<^verbatim>\<open>/process\<close>, the events of the stream and the
  calls of the memory are the same whatever the operation that the request submits does,
  and nothing of the operation has run when the request is served.
\<close>

theorem background_operation_is_isolated:
  "pending (run_background_task func loop) = pending loop @ [func] \<and>
   printed (run_background_task func loop) = printed loop \<and>
   snd (safe_wrapper func) = Inr () \<and>
   (run func = Returns \<longrightarrow> fst (safe_wrapper func) = []) \<and>
   (run func = Raises msg \<longrightarrow>
      fst (safe_wrapper func) =
        [warning_sign @ str '' Background task error ('' @
           (case dunder_name func of Some n \<Rightarrow> n | None \<Rightarrow> func_str func) @
           str ''): '' @ msg]) \<and>
   (pending loop = [] \<longrightarrow>
      run_next (run_background_task func loop) =
        loop\<lparr>printed := printed loop @ fst (safe_wrapper func)\<rparr>) \<and>
   fst (process_task orc e func loop rq) = fst (process_task orc e func' loop' rq) \<and>
   fst (snd (process_task orc e func loop rq)) =
     fst (snd (process_task orc e func' loop' rq)) \<and>
   printed (snd (snd (process_task orc e func loop rq))) = printed loop \<and>
   process_task_stream orc e func loop rq = process_task_stream orc e func' loop' rq \<and>
   fst (snd (generate_process_events orc e func loop rq)) =
     fst (snd (generate_process_events orc e func' loop' rq)) \<and>
   printed (snd (snd (generate_process_events orc e func loop rq))) = printed loop"
proof (intro conjI impI)
  show "pending (run_background_task func loop) = pending loop @ [func]"
    by (simp add: run_background_task_def)
  show "printed (run_background_task func loop) = printed loop"
    by (simp add: run_background_task_def)
  show "snd (safe_wrapper func) = Inr ()"
    by (rule safe_wrapper_returns)
  show "fst (safe_wrapper func) = []" if "run func = Returns"
    using that by (rule safe_wrapper_lines)
  show "fst (safe_wrapper func) =
        [warning_sign @ str '' Background task error ('' @
           (case dunder_name func of Some n \<Rightarrow> n | None \<Rightarrow> func_str func) @
           str ''): '' @ msg]" if "run func = Raises msg"
    using that by (rule safe_wrapper_lines)
  show "run_next (run_background_task func loop) =
        loop\<lparr>printed := printed loop @ fst (safe_wrapper func)\<rparr>" if "pending loop = []"
    using that by (rule run_next_submitted)
  show "fst (process_task orc e func loop rq) = fst (process_task orc e func' loop' rq)"
    by (rule process_task_response)
  show "fst (snd (process_task orc e func loop rq)) =
     fst (snd (process_task orc e func' loop' rq))"
    by (rule process_task_response)
  show "printed (snd (snd (process_task orc e func loop rq))) = printed loop"
    by (rule process_task_response)
  show "process_task_stream orc e func loop rq = process_task_stream orc e func' loop' rq"
    unfolding process_task_stream_def by (rule generate_process_events_response)
  show "fst (snd (generate_process_events orc e func loop rq)) =
     fst (snd (generate_process_events orc e func' loop' rq))"
    by (rule generate_process_events_response)
  show "printed (snd (snd (generate_process_events orc e func loop rq))) = printed loop"
    by (rule generate_process_events_response)
qed

text \<open>
  The operation \<^verbatim>\<open>record_task\<close> that raises ``connection refused'', submitted to an event
  loop with no task: the loop runs it, one line is printed, and no exception is left.
\<close>

theorem background_operation_is_isolated_witness:
  "run failing_record_task = Raises (str ''connection refused'') \<and>
   pending idle_loop = [] \<and>
   fst (safe_wrapper failing_record_task) =
     [[0x26A0, 0xFE0F] @ str '' Background task error (record_task): connection refused''] \<and>
   run_next (run_background_task failing_record_task idle_loop) =
     \<lparr>pending = [],
      printed = [[0x26A0, 0xFE0F] @
        str '' Background task error (record_task): connection refused'']\<rparr>"
proof -
  have r: "run failing_record_task = Raises (str ''connection refused'')"
    and n: "dunder_name failing_record_task = Some (str ''record_task'')"
    by (simp_all add: failing_record_task_def)
  have p: "pending idle_loop = []" "printed idle_loop = []"
    by (simp_all add: idle_loop_def)
  note t = background_operation_is_isolated[where func = failing_record_task
      and loop = idle_loop and msg = "str ''connection refused''"]
  have l: "fst (safe_wrapper failing_record_task) =
     [[0x26A0, 0xFE0F] @ str '' Background task error (record_task): connection refused'']"
    using t r n by (simp add: warning_sign_def str_def)
  have "run_next (run_background_task failing_record_task idle_loop) =
      idle_loop\<lparr>printed := printed idle_loop @ fst (safe_wrapper failing_record_task)\<rparr>"
    using t p by blast
  then have "run_next (run_background_task failing_record_task idle_loop) =
     \<lparr>pending = [],
      printed = [[0x26A0, 0xFE0F] @
        str '' Background task error (record_task): connection refused'']\<rparr>"
    unfolding l by (simp add: idle_loop_def)
  then show ?thesis
    using r p(1) l by blast
qed

end
